theory Spec2Isabelle
  imports Complex_Main "HOL-Library.Multiset" "HOL-Library.Product_Lexorder"
begin

section \<open>The raid-gym scheduler of Monocle (\<^verbatim>\<open>monocle/worker_raider.py\<close>)\<close>

text \<open>
  The module keeps, as class attributes of \<^verbatim>\<open>WorkerRaider\<close>, a priority queue of gym jobs,
  a list of workers, three counters and a semaphore. \<^verbatim>\<open>launch\<close> pops jobs and starts one
  \<^verbatim>\<open>try_point\<close> task per job; \<^verbatim>\<open>try_point\<close> asks \<^verbatim>\<open>best_worker\<close> for an idle worker, visits
  the gym and puts the job back with \<^verbatim>\<open>add_job\<close>.

  The embedding is shallow. Class attributes become the fields of a state record that
  every operation takes and returns. Everything the module reads from outside (the
  clocks, \<^verbatim>\<open>overseer.running\<close>, \<^verbatim>\<open>randomize_point\<close>, \<^verbatim>\<open>Worker.travel_speed\<close>, \<^verbatim>\<open>Worker.visit\<close>,
  the configuration) is an explicit argument. Exceptions are values of the type
  \<open>error\<close>.
\<close>

subsection \<open>Jobs\<close>

text \<open>
  A job is the dict built by \<^verbatim>\<open>preload\<close> (lines 60-73). The module reads \<^verbatim>\<open>lat\<close>, \<^verbatim>\<open>lon\<close> and
  \<^verbatim>\<open>external_id\<close> by subscript and \<^verbatim>\<open>updated\<close> and \<^verbatim>\<open>last_modified\<close> with \<^verbatim>\<open>dict.get\<close>, whose
  default applies when the key is absent, not when its value is 0. The two fields read
  with \<^verbatim>\<open>get\<close> are therefore optional: \<open>None\<close> stands for an absent key.
\<close>

type_synonym point = "real \<times> real"

record job =
  job_id :: int
  external_id :: string
  lat :: real
  lon :: real
  name :: string
  url :: string
  last_modified :: "int option"
  updated :: "int option"

text \<open>\<^verbatim>\<open>gym.get('updated', gym.get('last_modified', 0))\<close> (lines 81 and 126).\<close>

definition get_updated :: "job \<Rightarrow> int" where
  "get_updated gym =
     (case updated gym of
        Some u \<Rightarrow> u
      | None \<Rightarrow> (case last_modified gym of Some m \<Rightarrow> m | None \<Rightarrow> 0))"

datatype error =
    TypeError
  | IndexError
  | UnboundLocalError
  | GymNotFoundError
  | NothingSeenAtGymSpotError
  | CancelledError
  | CollaboratorError

subsection \<open>The priority queue\<close>

text \<open>
  \<^verbatim>\<open>job_queue\<close> is a \<^verbatim>\<open>queue.PriorityQueue\<close> of tuples \<^verbatim>\<open>(priority, time(), gym)\<close>. The standard
  library keeps such a queue as a list in binary-heap order and compares its entries with
  Python's tuple comparison: the first components that differ decide; when priority and
  time are both equal the dicts are compared, which is an equality test first (equal
  tuples are not less than each other) and a \<^verbatim>\<open>TypeError\<close> otherwise, since dicts have no
  order.
\<close>

type_synonym entry = "int \<times> real \<times> job"

definition entry_key :: "entry \<Rightarrow> int \<times> real" where
  "entry_key e = (fst e, fst (snd e))"

definition entry_lt :: "entry \<Rightarrow> entry \<Rightarrow> error + bool" where
  "entry_lt a b =
     (case a of (p1, t1, j1) \<Rightarrow>
      case b of (p2, t2, j2) \<Rightarrow>
        if p1 \<noteq> p2 then Inr (p1 < p2)
        else if t1 \<noteq> t2 then Inr (t1 < t2)
        else if j1 = j2 then Inr False
        else Inl TypeError)"

text \<open>
  \<^verbatim>\<open>heapq\<close> as CPython runs it (the accelerator the module \<^verbatim>\<open>heapq\<close> imports over its Python
  fallback; both leave the same list whenever no comparison raises). A sift exchanges an
  element with its parent or child, so the list holds the same entries at every moment,
  also when a comparison raises and the sift is abandoned half-way.

  \<^verbatim>\<open>
  siftdown(heap, startpos, pos):          # heap[pos] moves towards the root
      while pos > startpos:
          parentpos = (pos - 1) >> 1
          if not heap[pos] < heap[parentpos]: break
          heap[pos], heap[parentpos] = heap[parentpos], heap[pos]
          pos = parentpos
  \<close>
\<close>

definition swap :: "'a list \<Rightarrow> nat \<Rightarrow> nat \<Rightarrow> 'a list" where
  "swap xs i j = xs[i := xs ! j, j := xs ! i]"

function siftdown :: "entry list \<Rightarrow> nat \<Rightarrow> nat \<Rightarrow> error option \<times> entry list" where
  "siftdown heap startpos pos =
     (if startpos < pos then
        (case entry_lt (heap ! pos) (heap ! ((pos - 1) div 2)) of
           Inl e \<Rightarrow> (Some e, heap)
         | Inr lt \<Rightarrow>
             if lt then siftdown (swap heap pos ((pos - 1) div 2)) startpos ((pos - 1) div 2)
             else (None, heap))
      else (None, heap))"
  by pat_completeness auto
termination
  by (relation "measure (\<lambda>(heap, startpos, pos). pos)") auto

declare siftdown.simps [simp del]

text \<open>
  \<^verbatim>\<open>
  siftup(heap, pos):                      # the smaller child moves up until pos is a leaf
      endpos = len(heap); startpos = pos; limit = endpos >> 1
      while pos < limit:
          childpos = 2*pos + 1
          if childpos + 1 < endpos and not heap[childpos] < heap[childpos + 1]:
              childpos += 1
          heap[childpos], heap[pos] = heap[pos], heap[childpos]
          pos = childpos
      siftdown(heap, startpos, pos)
  \<close>
  The loop returns the list and the position it stopped at.
\<close>

function siftup_loop :: "entry list \<Rightarrow> nat \<Rightarrow> error option \<times> entry list \<times> nat" where
  "siftup_loop heap pos =
     (if pos < length heap div 2 then
        (if 2 * pos + 2 < length heap then
           (case entry_lt (heap ! (2 * pos + 1)) (heap ! (2 * pos + 2)) of
              Inl e \<Rightarrow> (Some e, heap, pos)
            | Inr lt \<Rightarrow>
                if lt then siftup_loop (swap heap (2 * pos + 1) pos) (2 * pos + 1)
                else siftup_loop (swap heap (2 * pos + 2) pos) (2 * pos + 2))
         else siftup_loop (swap heap (2 * pos + 1) pos) (2 * pos + 1))
      else (None, heap, pos))"
  by pat_completeness auto
termination
  by (relation "measure (\<lambda>(heap, pos). length heap - pos)") (auto simp: swap_def)

declare siftup_loop.simps [simp del]

definition siftup :: "entry list \<Rightarrow> nat \<Rightarrow> error option \<times> entry list" where
  "siftup heap pos =
     (case siftup_loop heap pos of
        (Some e, heap', pos') \<Rightarrow> (Some e, heap')
      | (None, heap', pos') \<Rightarrow> siftdown heap' pos pos')"

text \<open>
  \<^verbatim>\<open>heappush\<close> appends the item and sifts it down from the end. \<^verbatim>\<open>PriorityQueue.put_nowait\<close>
  on a queue made without \<^verbatim>\<open>maxsize\<close> never raises \<^verbatim>\<open>Full\<close>; it is \<^verbatim>\<open>heappush\<close>.
\<close>

definition heappush :: "entry list \<Rightarrow> entry \<Rightarrow> error option \<times> entry list" where
  "heappush heap item = siftdown (heap @ [item]) 0 (length heap)"

text \<open>
  \<^verbatim>\<open>heappop\<close> takes the last element off, and when the list is not empty then puts it at
  the root, sifts it up and returns the old root. On the empty list it raises
  \<^verbatim>\<open>IndexError\<close>; \<^verbatim>\<open>PriorityQueue.get\<close> never calls it there (it waits), and \<^verbatim>\<open>launch\<close> calls
  \<^verbatim>\<open>get\<close> only after \<^verbatim>\<open>empty()\<close> answered no.
\<close>

definition heappop :: "entry list \<Rightarrow> (error + entry) \<times> entry list" where
  "heappop heap =
     (if heap = [] then (Inl IndexError, heap)
      else
        let lastelt = last heap; heap1 = butlast heap in
        if heap1 = [] then (Inr lastelt, heap1)
        else
          (case siftup (heap1[0 := lastelt]) 0 of
             (Some e, heap2) \<Rightarrow> (Inl e, heap2)
           | (None, heap2) \<Rightarrow> (Inr (heap1 ! 0), heap2)))"

subsection \<open>Workers and the shared state\<close>

text \<open>
  Of a worker the module uses the lock \<^verbatim>\<open>busy\<close> (here: whether it is locked), and writes
  the attributes \<^verbatim>\<open>speed\<close> and \<^verbatim>\<open>scan_delayed\<close>. A worker is named by its index in
  \<^verbatim>\<open>WorkerRaider.workers\<close>.

  The state holds the class attributes. \<open>coroutine_semaphore\<close> is the value of the
  semaphore (the units not held). \<open>trace\<close> records, oldest first, the calls to
  collaborators and the log lines that the properties below speak of.
\<close>

record worker =
  busy :: bool
  speed :: real
  scan_delayed :: int

datatype visit_value = VNone | VBool bool | VInt int

datatype event =
    Randomize point real
  | LogSpeedLimit int real "real option"
  | Lock nat
  | Visit nat point
  | Unlock nat
  | LogGymError error
  | LogException error
  | LogLauncherWarning error
  | Sleep real

record state =
  workers :: "worker list"
  job_queue :: "entry list"
  skipped :: int
  visits :: int
  hash_burn :: int
  coroutine_semaphore :: int
  trace :: "event list"

definition emit :: "event \<Rightarrow> state \<Rightarrow> state" where
  "emit ev st = st\<lparr>trace := trace st @ [ev]\<rparr>"

subsection \<open>\<^verbatim>\<open>add_job\<close> and \<^verbatim>\<open>preload\<close>\<close>

text \<open>
  \<^verbatim>\<open>
  def add_job(self, gym):
      self.job_queue.put_nowait((gym.get('updated', gym.get('last_modified', 0)), time(), gym))
  \<close>
  \<open>now\<close> is what \<^verbatim>\<open>time()\<close> returns in the call. The result is the exception the call
  raises, if any, and the state it leaves.
\<close>

definition add_job :: "real \<Rightarrow> job \<Rightarrow> state \<Rightarrow> error option \<times> state" where
  "add_job now gym st =
     (case heappush (job_queue st) (get_updated gym, now, gym) of
        (exc, queue) \<Rightarrow> (exc, st\<lparr>job_queue := queue\<rparr>))"

text \<open>
  \<^verbatim>\<open>preload\<close> (lines 49-77) builds one job per stored fort that lies in the bounds and adds
  it. The database query and the bounds test are collaborators: the forts come as a
  list, each with the clock reading its \<^verbatim>\<open>add_job\<close> would see, and the bounds test is a
  parameter. The \<^verbatim>\<open>try\<close> encloses the whole loop, so the first exception ends the loading
  (it is logged, not raised).
\<close>

record sighting =
  sighting_last_modified :: int
  sighting_updated :: int

record fort =
  fort_id :: int
  fort_external_id :: string
  fort_lat :: real
  fort_lon :: real
  fort_name :: string
  fort_url :: string
  sightings :: "sighting list"

definition fort_job :: "fort \<Rightarrow> job" where
  "fort_job f =
     (let obj = \<lparr>job_id = fort_id f, external_id = fort_external_id f, lat = fort_lat f,
                 lon = fort_lon f, name = fort_name f, url = fort_url f,
                 last_modified = Some 0, updated = Some 0\<rparr>
      in case sightings f of
           [] \<Rightarrow> obj
         | s # _ \<Rightarrow> obj\<lparr>last_modified := Some (sighting_last_modified s),
                         updated := Some (sighting_updated s)\<rparr>)"

fun preload :: "(point \<Rightarrow> bool) \<Rightarrow> (fort \<times> real) list \<Rightarrow> state \<Rightarrow> state" where
  "preload in_bounds [] st = st"
| "preload in_bounds ((f, now) # forts) st =
     (if \<not> in_bounds (fort_lat f, fort_lon f) then preload in_bounds forts st
      else
        (case add_job now (fort_job f) st of
           (Some e, st') \<Rightarrow> st'
         | (None, st') \<Rightarrow> preload in_bounds forts st'))"

subsection \<open>\<^verbatim>\<open>best_worker\<close>\<close>

text \<open>
  What one attempt reads from outside: \<^verbatim>\<open>overseer.running\<close> when \<^verbatim>\<open>best_worker\<close> tests it,
  the collaborators \<^verbatim>\<open>randomize_point\<close> and \<^verbatim>\<open>Worker.travel_speed\<close> (by worker index), what the
  first and the second call of \<^verbatim>\<open>worker.visit\<close> do (raise, or return a value), the clock
  readings (\<^verbatim>\<open>monotonic()\<close> on line 128, \<^verbatim>\<open>time()\<close> on lines 180, 147 and, inside \<^verbatim>\<open>add_job\<close>,
  81) and the two configuration values.
\<close>

record env =
  running :: bool
  randomize_point :: "point \<Rightarrow> real \<Rightarrow> point"
  travel_speed :: "nat \<Rightarrow> point \<Rightarrow> real"
  first_visit :: "error + visit_value"
  second_visit :: "error + visit_value"
  monotonic_start :: real
  time_scan :: real
  time_visited :: real
  time_requeue :: real
  SEARCH_SLEEP :: real
  SPEED_LIMIT :: real

text \<open>\<^verbatim>\<open>int(x)\<close> of a float truncates towards zero.\<close>

definition py_int :: "real \<Rightarrow> int" where
  "py_int x = (if x < 0 then \<lceil>x\<rceil> else \<lfloor>x\<rfloor>)"

text \<open>
  Lines 174-178: the rest of the generator of idle workers, after the first one has been
  taken by \<^verbatim>\<open>next(gen)\<close>. A later worker replaces the current one only when strictly
  faster.
\<close>

fun scan_rest :: "(nat \<Rightarrow> real) \<Rightarrow> nat list \<Rightarrow> nat \<times> real \<Rightarrow> nat \<times> real" where
  "scan_rest speed_of [] (worker, lowest_speed) = (worker, lowest_speed)"
| "scan_rest speed_of (w # gen) (worker, lowest_speed) =
     (if speed_of w < lowest_speed then scan_rest speed_of gen (w, speed_of w)
      else scan_rest speed_of gen (worker, lowest_speed))"

text \<open>
  \<^verbatim>\<open>
  async def best_worker(self, point, job, updated, skip_time):
      while self.overseer.running:
          gen = (w for w in self.workers if not w.busy.locked())
          try:
              worker = next(gen)
              lowest_speed = worker.travel_speed(point)
          except StopIteration:
              lowest_speed = float('inf')
          for w in gen: ...
          tolerable_time_diff = 300
          time_diff = int(time() - updated)
          min_time_diff = max(min(time_diff, tolerable_time_diff * 5), 0)
          speed_limit = (conf.SPEED_LIMIT * (1.0 + (min_time_diff / tolerable_time_diff)))
          log.info("SPEED_LIMIT ...", ..., time_diff, speed_limit, lowest_speed)
          if worker:# and lowest_speed < speed_limit:
              worker.speed = lowest_speed
              return worker
          if skip_time and monotonic() > skip_time:
              return None
          await sleep(conf.SEARCH_SLEEP, loop=LOOP)
  \<close>
  The local name \<^verbatim>\<open>worker\<close> is assigned only by \<^verbatim>\<open>next(gen)\<close> and in the \<^verbatim>\<open>for\<close> loop. When no
  worker is idle, \<^verbatim>\<open>next(gen)\<close> raises \<^verbatim>\<open>StopIteration\<close> before the assignment, the handler
  sets \<^verbatim>\<open>lowest_speed\<close> alone, the \<^verbatim>\<open>for\<close> loop has nothing to run over, and \<^verbatim>\<open>if worker:\<close>
  reads a name that was never bound: Python raises \<^verbatim>\<open>UnboundLocalError\<close>. When a worker
  is idle the name is bound to a \<^verbatim>\<open>WorkerRaider\<close> object, which is true in a condition
  (\<^verbatim>\<open>WorkerRaider\<close> defines neither \<^verbatim>\<open>__bool__\<close> nor \<^verbatim>\<open>__len__\<close>, and an object is true
  unless its class defines one of them), and the function returns. So the first
  pass of the \<^verbatim>\<open>while\<close> loop always leaves the function, and the lines after the
  \<^verbatim>\<open>return worker\<close> (the deadline test and the sleep) are never reached: the model has
  no branch for them. The logged speed is \<open>None\<close> for \<^verbatim>\<open>float('inf')\<close>. Speeds and clock
  readings are finite floats, taken as the reals they denote; the speed limit, which is
  only logged, is computed without rounding.
\<close>

definition best_worker ::
  "env \<Rightarrow> point \<Rightarrow> job \<Rightarrow> int \<Rightarrow> real \<Rightarrow> state \<Rightarrow> (error + nat option) \<times> state" where
  "best_worker env point gym updated_at skip_time st =
     (if \<not> running env then (Inr None, st)
      else
        let gen = filter (\<lambda>w. \<not> busy (workers st ! w)) [0..<length (workers st)];
            found = (case gen of
                       [] \<Rightarrow> None
                     | w # rest \<Rightarrow>
                         Some (scan_rest (\<lambda>w. travel_speed env w point) rest
                                 (w, travel_speed env w point)));
            time_diff = py_int (time_scan env - real_of_int updated_at);
            min_time_diff = max (min time_diff (300 * 5)) 0;
            speed_limit = SPEED_LIMIT env * (1 + real_of_int min_time_diff / 300);
            st1 = emit (LogSpeedLimit time_diff speed_limit (map_option snd found)) st
        in case found of
             None \<Rightarrow> (Inl UnboundLocalError, st1)
           | Some (worker, lowest_speed) \<Rightarrow>
               (Inr (Some worker),
                st1\<lparr>workers := (workers st1)[worker := (workers st1 ! worker)\<lparr>speed := lowest_speed\<rparr>]\<rparr>))"

subsection \<open>\<^verbatim>\<open>try_point\<close>\<close>

text \<open>
  The attempt is modelled as one function from the state to the state: what other tasks
  do to the shared state while this one waits in \<^verbatim>\<open>worker.visit\<close> is not part of it.

  Truth of a visit result, and lines 135-142: the visit, and after a result of -1 the
  one retry at a point moved by 0.00001.
\<close>

fun truthy :: "visit_value \<Rightarrow> bool" where
  "truthy VNone = False"
| "truthy (VBool b) = b"
| "truthy (VInt n) = (n \<noteq> 0)"

definition set_busy :: "nat \<Rightarrow> bool \<Rightarrow> state \<Rightarrow> state" where
  "set_busy w b st = st\<lparr>workers := (workers st)[w := (workers st ! w)\<lparr>busy := b\<rparr>]\<rparr>"

definition visit_retry :: "env \<Rightarrow> nat \<Rightarrow> point \<Rightarrow> state \<Rightarrow> (error + visit_value) \<times> state" where
  "visit_retry env worker point st =
     (let st1 = emit (Visit worker point) st in
      case first_visit env of
        Inl e \<Rightarrow> (Inl e, st1)
      | Inr visit_result \<Rightarrow>
          if visit_result = VInt (- 1) then
            let st2 = st1\<lparr>hash_burn := hash_burn st1 + 1\<rparr>;
                point2 = randomize_point env point (1 / 100000);
                st3 = emit (Randomize point (1 / 100000)) st2
            in (second_visit env, emit (Visit worker point2) st3)
          else (Inr visit_result, st1))"

text \<open>
  Lines 143-152: a true result other than -1 is a success; -1 raises
  \<^verbatim>\<open>GymNotFoundError\<close>; a false result raises \<^verbatim>\<open>NothingSeenAtGymSpotError\<close>. The result is the
  exception raised, the job dict (changed on success) and the state.
\<close>

definition record_visit ::
  "env \<Rightarrow> nat \<Rightarrow> int \<Rightarrow> job \<Rightarrow> visit_value \<Rightarrow> state \<Rightarrow> error option \<times> job \<times> state" where
  "record_visit env worker updated_at gym visit_result st =
     (if truthy visit_result then
        (if visit_result = VInt (- 1) then (Some GymNotFoundError, gym, st)
         else
           let now = py_int (time_visited env) in
           (None, gym\<lparr>updated := Some now\<rparr>,
            st\<lparr>workers := (workers st)[worker := (workers st ! worker)\<lparr>scan_delayed := now - updated_at\<rparr>],
               visits := visits st + 1\<rparr>))
      else (Some NothingSeenAtGymSpotError, gym, st))"

text \<open>
  Lines 132-152, \<^verbatim>\<open>async with worker.busy\<close>: the lock is taken, and released on every way
  out of the block.
\<close>

definition with_busy ::
  "env \<Rightarrow> nat \<Rightarrow> point \<Rightarrow> int \<Rightarrow> job \<Rightarrow> state \<Rightarrow> error option \<times> job \<times> state" where
  "with_busy env worker point updated_at gym st =
     (let st1 = emit (Lock worker) (set_busy worker True st) in
      case visit_retry env worker point st1 of
        (Inl e, st2) \<Rightarrow> (Some e, gym, emit (Unlock worker) (set_busy worker False st2))
      | (Inr visit_result, st2) \<Rightarrow>
          (case record_visit env worker updated_at gym visit_result st2 of
             (exc, gym', st3) \<Rightarrow> (exc, gym', emit (Unlock worker) (set_busy worker False st3))))"

text \<open>Lines 124-152, the body of the \<^verbatim>\<open>try\<close>.\<close>

definition try_body :: "env \<Rightarrow> job \<Rightarrow> state \<Rightarrow> error option \<times> job \<times> state" where
  "try_body env gym st =
     (let point = (lat gym, lon gym);
          updated_at = get_updated gym;
          point1 = randomize_point env point (3 / 100000);
          st1 = emit (Randomize point (3 / 100000)) st;
          skip_time = monotonic_start env + SEARCH_SLEEP env * 2
      in case best_worker env point1 gym updated_at skip_time st1 of
           (Inl e, st2) \<Rightarrow> (Some e, gym, st2)
         | (Inr None, st2) \<Rightarrow> (None, gym, st2)
         | (Inr (Some worker), st2) \<Rightarrow> with_busy env worker point1 updated_at gym st2)"

text \<open>
  Lines 153-160, the handlers: \<^verbatim>\<open>CancelledError\<close> is raised again; the two gym errors and
  every other exception are counted as skipped and logged. The result is the exception
  still pending.
\<close>

definition handlers :: "error option \<Rightarrow> state \<Rightarrow> error option \<times> state" where
  "handlers exc st =
     (case exc of
        None \<Rightarrow> (None, st)
      | Some e \<Rightarrow>
          if e = CancelledError then (Some CancelledError, st)
          else if e = GymNotFoundError \<or> e = NothingSeenAtGymSpotError
          then (None, emit (LogGymError e) (st\<lparr>skipped := skipped st + 1\<rparr>))
          else (None, emit (LogException e) (st\<lparr>skipped := skipped st + 1\<rparr>)))"

text \<open>
  Lines 161-163, the \<^verbatim>\<open>finally\<close>: \<^verbatim>\<open>add_job\<close>, then the release of the semaphore. An
  exception of \<^verbatim>\<open>add_job\<close> leaves the block before the release and replaces a pending one.
\<close>

definition finally_block :: "env \<Rightarrow> job \<Rightarrow> error option \<Rightarrow> state \<Rightarrow> error option \<times> state" where
  "finally_block env gym pending st =
     (case add_job (time_requeue env) gym st of
        (Some e, st1) \<Rightarrow> (Some e, st1)
      | (None, st1) \<Rightarrow> (pending, st1\<lparr>coroutine_semaphore := coroutine_semaphore st1 + 1\<rparr>))"

definition try_point :: "env \<Rightarrow> job \<Rightarrow> state \<Rightarrow> error option \<times> state" where
  "try_point env gym st =
     (case try_body env gym st of
        (exc, gym', st1) \<Rightarrow>
          (case handlers exc st1 of
             (pending, st2) \<Rightarrow> finally_block env gym' pending st2))"

text \<open>
  To speak of the calls an attempt makes to its collaborators: the \<^verbatim>\<open>randomize_point\<close> and
  \<^verbatim>\<open>visit\<close> events of a trace, in order.
\<close>

fun is_call :: "event \<Rightarrow> bool" where
  "is_call (Randomize p amount) = True"
| "is_call (Visit w p) = True"
| "is_call ev = False"

definition calls :: "event list \<Rightarrow> event list" where
  "calls tr = filter is_call tr"

subsection \<open>\<^verbatim>\<open>launch\<close>\<close>

text \<open>
  The class attributes as the class statement leaves them (lines 29-36); the semaphore
  starts at \<^verbatim>\<open>workers_needed\<close>.
\<close>

definition initial_state :: "nat \<Rightarrow> state" where
  "initial_state workers_needed =
     \<lparr>workers = [], job_queue = [], skipped = 0, visits = 0, hash_burn = 0,
      coroutine_semaphore = int workers_needed, trace = []\<rparr>"

text \<open>
  \<^verbatim>\<open>
  while True:
      try:
          while not self.job_queue.empty():
              job = self.job_queue.get()[2]
              await self.coroutine_semaphore.acquire()
              LOOP.create_task(self.try_point(job))
      except Exception as e:
          log.warning("A wild error appeared in launcher loop: {}", e)
      await sleep(1)
  \<close>
  inside \<^verbatim>\<open>try: ... except CancelledError: ... except Exception: ...\<close> (lines 87-119).

  The launcher and the tasks it creates take turns on one event loop. The system is the
  shared state, the jobs of the tasks created and not yet finished, and the place the
  launcher is at: about to test the queue, waiting in \<^verbatim>\<open>acquire\<close> with a job in hand,
  in \<^verbatim>\<open>sleep(1)\<close>, or after the loop. The actions:
  \<^item> \<open>Drain\<close>: the launcher tests the queue; on an empty queue it leaves the inner loop and
    sleeps, otherwise it pops (an exception of the pop is caught on line 113 and logged,
    and the launcher sleeps);
  \<^item> \<open>Acquire\<close>: the semaphore has a unit; the launcher takes it and creates the task;
  \<^item> \<open>Wake\<close>: the sleep ends;
  \<^item> \<open>Interrupt e\<close>: the \<^verbatim>\<open>await\<close> the launcher is in raises \<open>e\<close>. In \<^verbatim>\<open>acquire\<close>, inside the inner
    \<^verbatim>\<open>try\<close>, any exception is caught on line 113, except that from Python 3.8 on
    \<^verbatim>\<open>CancelledError\<close> is no \<^verbatim>\<open>Exception\<close> and reaches line 116: the flag says which Python
    runs. \<^verbatim>\<open>sleep(1)\<close> raises nothing but \<^verbatim>\<open>CancelledError\<close>, which ends the launcher;
  \<^item> \<open>Finish i env\<close>: the task of the \<open>i\<close>-th job in flight runs \<^verbatim>\<open>try_point\<close> to its
    end. An exception that leaves \<^verbatim>\<open>try_point\<close> stays in the task object.
  An action that cannot happen at the state gives \<open>None\<close>.
\<close>

datatype launcher = Draining | Acquiring job | Sleeping | Finished

record system =
  shared :: state
  in_flight :: "job list"
  launcher :: launcher

datatype action = Drain | Acquire | Wake | Interrupt error | Finish nat env

definition caught_in_loop :: "error \<Rightarrow> system \<Rightarrow> system" where
  "caught_in_loop e s =
     s\<lparr>shared := emit (Sleep 1) (emit (LogLauncherWarning e) (shared s)), launcher := Sleeping\<rparr>"

definition drain :: "system \<Rightarrow> system" where
  "drain s =
     (if job_queue (shared s) = []
      then s\<lparr>shared := emit (Sleep 1) (shared s), launcher := Sleeping\<rparr>
      else
        (case heappop (job_queue (shared s)) of
           (Inl e, queue) \<Rightarrow> caught_in_loop e (s\<lparr>shared := (shared s)\<lparr>job_queue := queue\<rparr>\<rparr>)
         | (Inr item, queue) \<Rightarrow>
             s\<lparr>shared := (shared s)\<lparr>job_queue := queue\<rparr>, launcher := Acquiring (snd (snd item))\<rparr>))"

fun step :: "bool \<Rightarrow> action \<Rightarrow> system \<Rightarrow> system option" where
  "step cancel_is_exception Drain s =
     (case launcher s of Draining \<Rightarrow> Some (drain s) | _ \<Rightarrow> None)"
| "step cancel_is_exception Acquire s =
     (case launcher s of
        Acquiring gym \<Rightarrow>
          if 0 < coroutine_semaphore (shared s)
          then Some (s\<lparr>shared := (shared s)\<lparr>coroutine_semaphore := coroutine_semaphore (shared s) - 1\<rparr>,
                       in_flight := in_flight s @ [gym], launcher := Draining\<rparr>)
          else None
      | _ \<Rightarrow> None)"
| "step cancel_is_exception Wake s =
     (case launcher s of Sleeping \<Rightarrow> Some (s\<lparr>launcher := Draining\<rparr>) | _ \<Rightarrow> None)"
| "step cancel_is_exception (Interrupt e) s =
     (case launcher s of
        Acquiring gym \<Rightarrow>
          if e = CancelledError \<and> \<not> cancel_is_exception then Some (s\<lparr>launcher := Finished\<rparr>)
          else Some (caught_in_loop e s)
      | Sleeping \<Rightarrow> if e = CancelledError then Some (s\<lparr>launcher := Finished\<rparr>) else None
      | _ \<Rightarrow> None)"
| "step cancel_is_exception (Finish i env) s =
     (if i < length (in_flight s)
      then Some (s\<lparr>shared := snd (try_point env (in_flight s ! i) (shared s)),
                   in_flight := take i (in_flight s) @ drop (Suc i) (in_flight s)\<rparr>)
      else None)"

fun run :: "bool \<Rightarrow> action list \<Rightarrow> system \<Rightarrow> system option" where
  "run cancel_is_exception [] s = Some s"
| "run cancel_is_exception (a # as) s =
     (case step cancel_is_exception a s of
        None \<Rightarrow> None
      | Some s' \<Rightarrow> run cancel_is_exception as s')"

text \<open>
  The units of the semaphore: its value is not negative, and the value and the attempts in
  flight together do not exceed \<^verbatim>\<open>workers_needed\<close>.
\<close>

definition units_ok :: "nat \<Rightarrow> system \<Rightarrow> bool" where
  "units_ok workers_needed s =
     (0 \<le> coroutine_semaphore (shared s)
      \<and> coroutine_semaphore (shared s) + int (length (in_flight s)) \<le> int workers_needed)"

text \<open>
  Lines 85-103: \<^verbatim>\<open>launch\<close> preloads the queue and creates the workers (a constructor that
  raises is logged and leaves no worker), then enters the loop. The workers created are
  given.
\<close>

definition launch_start ::
  "(point \<Rightarrow> bool) \<Rightarrow> (fort \<times> real) list \<Rightarrow> worker list \<Rightarrow> state \<Rightarrow> system" where
  "launch_start in_bounds forts created st =
     (let st1 = preload in_bounds forts st in
      \<lparr>shared = st1\<lparr>workers := workers st1 @ created\<rparr>, in_flight = [], launcher = Draining\<rparr>)"

subsection \<open>Histories of the queue\<close>

text \<open>
  To speak of every sequence of pushes and pops: a history is a list of \<^verbatim>\<open>add_job\<close> calls,
  each with the clock reading it sees, and of \<^verbatim>\<open>job_queue.get()\<close> calls. \<open>run_queue\<close> runs a
  history and stops at the first exception; it returns the exception, the entries the
  pops returned, oldest first, and the state. A pop of the empty queue is the
  \<^verbatim>\<open>IndexError\<close> of \<^verbatim>\<open>heappop\<close> (\<^verbatim>\<open>get()\<close> itself would wait; \<^verbatim>\<open>launch\<close> never pops an empty
  queue). \<open>put_entries\<close> lists the entries a history pushes, in the order of the pushes.
\<close>

datatype queue_op = Put real job | Get

fun put_entries :: "queue_op list \<Rightarrow> entry list" where
  "put_entries [] = []"
| "put_entries (Put now gym # ops) = (get_updated gym, now, gym) # put_entries ops"
| "put_entries (Get # ops) = put_entries ops"

fun run_queue :: "queue_op list \<Rightarrow> state \<Rightarrow> error option \<times> entry list \<times> state" where
  "run_queue [] st = (None, [], st)"
| "run_queue (Put now gym # ops) st =
     (case add_job now gym st of
        (Some e, st') \<Rightarrow> (Some e, [], st')
      | (None, st') \<Rightarrow> run_queue ops st')"
| "run_queue (Get # ops) st =
     (case heappop (job_queue st) of
        (Inl e, queue) \<Rightarrow> (Some e, [], st\<lparr>job_queue := queue\<rparr>)
      | (Inr item, queue) \<Rightarrow>
          (case run_queue ops (st\<lparr>job_queue := queue\<rparr>) of
             (exc, got, st') \<Rightarrow> (exc, item # got, st')))"

subsection \<open>Heap order\<close>

text \<open>
  The order that \<^verbatim>\<open>heapq\<close> keeps, on the key \<open>(priority, time)\<close> of an entry: every element
  is at least its parent, the element at \<open>(i - 1) div 2\<close>. \<open>heap_but h pos\<close> is the state
  inside \<^verbatim>\<open>siftdown\<close>: the order holds except between \<open>pos\<close> and its parent, and the
  children of \<open>pos\<close> are at least the parent of \<open>pos\<close>. \<open>heap_hole h pos\<close> is the state inside
  the loop of \<^verbatim>\<open>siftup\<close>: the element at \<open>pos\<close> is out of place against its parent and its
  children alike.
\<close>

definition heap_inv :: "entry list \<Rightarrow> bool" where
  "heap_inv h = (\<forall>i < length h. 0 < i \<longrightarrow> entry_key (h ! ((i - 1) div 2)) \<le> entry_key (h ! i))"

definition heap_but :: "entry list \<Rightarrow> nat \<Rightarrow> bool" where
  "heap_but h pos =
     ((\<forall>i < length h. 0 < i \<longrightarrow> i \<noteq> pos \<longrightarrow> entry_key (h ! ((i - 1) div 2)) \<le> entry_key (h ! i))
    \<and> (\<forall>i < length h. 0 < i \<longrightarrow> 0 < pos \<longrightarrow> (i - 1) div 2 = pos \<longrightarrow>
           entry_key (h ! ((pos - 1) div 2)) \<le> entry_key (h ! i)))"

definition heap_hole :: "entry list \<Rightarrow> nat \<Rightarrow> bool" where
  "heap_hole h pos =
     ((\<forall>i < length h. 0 < i \<longrightarrow> i \<noteq> pos \<longrightarrow> (i - 1) div 2 \<noteq> pos \<longrightarrow>
           entry_key (h ! ((i - 1) div 2)) \<le> entry_key (h ! i))
    \<and> (\<forall>i < length h. 0 < i \<longrightarrow> 0 < pos \<longrightarrow> (i - 1) div 2 = pos \<longrightarrow>
           entry_key (h ! ((pos - 1) div 2)) \<le> entry_key (h ! i)))"

subsection \<open>Sample data\<close>

definition gym_a :: job where
  "gym_a = \<lparr>job_id = 1, external_id = ''a'', lat = 1, lon = 2, name = ''A'', url = ''u'',
            last_modified = Some 5, updated = Some 0\<rparr>"

definition gym_b :: job where
  "gym_b = \<lparr>job_id = 2, external_id = ''b'', lat = 3, lon = 4, name = ''B'', url = ''v'',
            last_modified = Some 300, updated = Some 400\<rparr>"

definition idle_worker :: worker where
  "idle_worker = \<lparr>busy = False, speed = 0, scan_delayed = 0\<rparr>"

definition busy_worker :: worker where
  "busy_worker = \<lparr>busy = True, speed = 0, scan_delayed = 0\<rparr>"

text \<open>
  A sample environment: the jitter adds the amount to the latitude, worker 0 needs speed
  5 and every other worker speed 2; the run-state flag and both visits are parameters.
  The speed limit that \<^verbatim>\<open>best_worker\<close> computes there stays below both speeds.
\<close>

definition sample_env :: "bool \<Rightarrow> (error + visit_value) \<Rightarrow> (error + visit_value) \<Rightarrow> env" where
  "sample_env run1 v1 v2 =
     \<lparr>running = run1, randomize_point = (\<lambda>p amount. (fst p + amount, snd p)),
      travel_speed = (\<lambda>w p. if w = 0 then 5 else 2),
      first_visit = v1, second_visit = v2,
      monotonic_start = 50, time_scan = 1000, time_visited = 1007, time_requeue = 1008,
      SEARCH_SLEEP = 3, SPEED_LIMIT = 1 / 10\<rparr>"

text \<open>Two stored forts without sightings: \<^verbatim>\<open>preload\<close> gives both jobs the priority 0.\<close>

definition fort_a :: fort where
  "fort_a = \<lparr>fort_id = 1, fort_external_id = ''a'', fort_lat = 1, fort_lon = 2,
             fort_name = ''A'', fort_url = ''u'', sightings = []\<rparr>"

definition fort_b :: fort where
  "fort_b = \<lparr>fort_id = 2, fort_external_id = ''b'', fort_lat = 3, fort_lon = 4,
             fort_name = ''B'', fort_url = ''v'', sightings = []\<rparr>"

section \<open>Properties\<close>

subsection \<open>The heap keeps its entries\<close>

lemma mset_swap_entries:
  "i < length xs \<Longrightarrow> j < length xs \<Longrightarrow> mset (swap xs i j) = mset xs"
  by (simp add: swap_def mset_swap)

lemma length_swap: "length (swap xs i j) = length xs"
  by (simp add: swap_def)

lemma mset_siftdown:
  "pos < length heap \<Longrightarrow> mset (snd (siftdown heap startpos pos)) = mset heap"
proof (induction heap startpos pos rule: siftdown.induct)
  case (1 heap startpos pos)
  show ?case
  proof (cases "startpos < pos")
    case False
    then show ?thesis by (simp add: siftdown.simps [of heap startpos pos])
  next
    case True
    let ?par = "(pos - 1) div 2"
    have par: "?par < length heap" using "1.prems" by simp
    show ?thesis
    proof (cases "entry_lt (heap ! pos) (heap ! ?par)")
      case (Inl e)
      with True show ?thesis by (simp add: siftdown.simps [of heap startpos pos])
    next
      case (Inr lt)
      show ?thesis
      proof (cases lt)
        case False
        with True Inr show ?thesis by (simp add: siftdown.simps [of heap startpos pos])
      next
        case lt: True
        have "mset (snd (siftdown (swap heap pos ?par) startpos ?par)) = mset (swap heap pos ?par)"
          using "1.IH" [OF True Inr] lt par by (simp add: length_swap)
        with True Inr lt par "1.prems" show ?thesis
          by (simp add: siftdown.simps [of heap startpos pos] mset_swap_entries)
      qed
    qed
  qed
qed

lemma mset_heappush: "mset (snd (heappush heap item)) = add_mset item (mset heap)"
  by (simp add: heappush_def mset_siftdown)

lemma length_siftdown: "length (snd (siftdown heap startpos pos)) = length heap"
proof (induction heap startpos pos rule: siftdown.induct)
  case (1 heap startpos pos)
  show ?case
  proof (cases "startpos < pos")
    case False
    then show ?thesis by (simp add: siftdown.simps [of heap startpos pos])
  next
    case True
    show ?thesis
    proof (cases "entry_lt (heap ! pos) (heap ! ((pos - 1) div 2))")
      case (Inl e)
      with True show ?thesis by (simp add: siftdown.simps [of heap startpos pos])
    next
      case (Inr lt)
      with True "1.IH" [OF True Inr] show ?thesis
        by (cases lt) (simp_all add: siftdown.simps [of heap startpos pos] length_swap)
    qed
  qed
qed

lemma length_siftup_loop: "length (fst (snd (siftup_loop heap pos))) = length heap"
proof (induction heap pos rule: siftup_loop.induct)
  case (1 heap pos)
  show ?case
  proof (cases "pos < length heap div 2")
    case False
    then show ?thesis by (simp add: siftup_loop.simps [of heap pos])
  next
    case inner: True
    show ?thesis
    proof (cases "2 * pos + 2 < length heap")
      case False
      with inner "1.IH"(3) [OF inner False] show ?thesis
        by (simp add: siftup_loop.simps [of heap pos] length_swap)
    next
      case two: True
      show ?thesis
      proof (cases "entry_lt (heap ! (2 * pos + 1)) (heap ! (2 * pos + 2))")
        case (Inl e)
        with inner two show ?thesis by (simp add: siftup_loop.simps [of heap pos])
      next
        case (Inr lt)
        show ?thesis
        proof (cases lt)
          case True
          with inner two Inr "1.IH"(1) [OF inner two Inr True] show ?thesis
            by (simp add: siftup_loop.simps [of heap pos] length_swap)
        next
          case False
          with inner two Inr "1.IH"(2) [OF inner two Inr False] show ?thesis
            by (simp add: siftup_loop.simps [of heap pos] length_swap)
        qed
      qed
    qed
  qed
qed

lemma length_siftup: "length (snd (siftup heap pos)) = length heap"
proof -
  obtain e h p where l: "siftup_loop heap pos = (e, h, p)" by (cases "siftup_loop heap pos")
  have "length h = length heap" using length_siftup_loop [of heap pos] by (simp add: l)
  then show ?thesis by (cases e) (simp_all add: siftup_def l length_siftdown)
qed

lemma length_heappop: "length (snd (heappop (e # heap))) = length heap"
proof (cases "heap = []")
  case True
  then show ?thesis by (simp add: heappop_def)
next
  case False
  then have b: "butlast (e # heap) \<noteq> []" by simp
  have "length (snd (siftup ((butlast (e # heap))[0 := last (e # heap)]) 0)) = length heap"
    using False by (simp add: length_siftup)
  then show ?thesis using False
    by (auto simp add: heappop_def Let_def split: prod.splits option.splits)
qed

lemma length_heappush: "length (snd (heappush heap item)) = Suc (length heap)"
  by (simp add: heappush_def length_siftdown)

subsection \<open>What \<^verbatim>\<open>add_job\<close> and the \<^verbatim>\<open>finally\<close> block leave alone\<close>

lemma add_job_frame:
  "workers (snd (add_job now gym st)) = workers st"
  "skipped (snd (add_job now gym st)) = skipped st"
  "visits (snd (add_job now gym st)) = visits st"
  "hash_burn (snd (add_job now gym st)) = hash_burn st"
  "coroutine_semaphore (snd (add_job now gym st)) = coroutine_semaphore st"
  "trace (snd (add_job now gym st)) = trace st"
  by (simp_all add: add_job_def split: prod.splits)

lemma mset_add_job:
  "mset (job_queue (snd (add_job now gym st)))
     = add_mset (get_updated gym, now, gym) (mset (job_queue st))"
proof -
  have "job_queue (snd (add_job now gym st)) = snd (heappush (job_queue st) (get_updated gym, now, gym))"
    by (simp add: add_job_def split: prod.splits)
  then show ?thesis by (simp add: mset_heappush)
qed

lemma finally_block_frame:
  "workers (snd (finally_block env gym pending st)) = workers st"
  "skipped (snd (finally_block env gym pending st)) = skipped st"
  "visits (snd (finally_block env gym pending st)) = visits st"
  "hash_burn (snd (finally_block env gym pending st)) = hash_burn st"
  "trace (snd (finally_block env gym pending st)) = trace st"
  "mset (job_queue (snd (finally_block env gym pending st)))
     = add_mset (get_updated gym, time_requeue env, gym) (mset (job_queue st))"
  using add_job_frame [of "time_requeue env" gym st] mset_add_job [of "time_requeue env" gym st]
  by (auto simp: finally_block_def split: prod.splits option.splits)

lemma best_worker_stopped:
  "\<not> running env \<Longrightarrow> best_worker env point gym updated_at skip_time st = (Inr None, st)"
  by (simp add: best_worker_def)

lemma try_body_stopped:
  "\<not> running env \<Longrightarrow>
   try_body env gym st = (None, gym, emit (Randomize (lat gym, lon gym) (3 / 100000)) st)"
  by (simp add: try_body_def best_worker_stopped Let_def)

subsection \<open>The scan of \<^verbatim>\<open>best_worker\<close>\<close>

lemma scan_rest_min:
  "lowest = speed_of worker \<Longrightarrow> scan_rest speed_of gen (worker, lowest) = (w', s') \<Longrightarrow>
     s' = speed_of w' \<and> w' \<in> set (worker # gen) \<and> (\<forall>x \<in> set (worker # gen). s' \<le> speed_of x)"
proof (induction gen arbitrary: worker lowest)
  case Nil
  then show ?case by auto
next
  case (Cons w gen)
  show ?case
  proof (cases "speed_of w < lowest")
    case True
    with Cons.prems have "scan_rest speed_of gen (w, speed_of w) = (w', s')" by simp
    from Cons.IH [OF refl this] True Cons.prems(1) show ?thesis by auto
  next
    case False
    with Cons.prems have "scan_rest speed_of gen (worker, lowest) = (w', s')" by simp
    from Cons.IH [OF Cons.prems(1) this] False Cons.prems(1) show ?thesis by auto
  qed
qed

lemma best_worker_none_idle:
  assumes "running env" and "\<forall>w \<in> set (workers st). busy w"
  shows "\<exists>time_diff speed_limit. best_worker env point gym updated_at skip_time st
           = (Inl UnboundLocalError, emit (LogSpeedLimit time_diff speed_limit None) st)"
proof -
  have "filter (\<lambda>w. \<not> busy (workers st ! w)) [0..<length (workers st)] = []"
    using assms(2) by (auto simp: filter_empty_conv)
  then show ?thesis using assms(1) by (auto simp add: best_worker_def Let_def)
qed

lemma best_worker_idle:
  assumes "running env" and "w0 < length (workers st)" and "\<not> busy (workers st ! w0)"
  shows "\<exists>w time_diff speed_limit. best_worker env point gym updated_at skip_time st
           = (Inr (Some w),
              (emit (LogSpeedLimit time_diff speed_limit (Some (travel_speed env w point))) st)
                \<lparr>workers := (workers st)[w := (workers st ! w)\<lparr>speed := travel_speed env w point\<rparr>]\<rparr>)
         \<and> w < length (workers st) \<and> \<not> busy (workers st ! w)
         \<and> (\<forall>w' < length (workers st). \<not> busy (workers st ! w') \<longrightarrow>
               travel_speed env w point \<le> travel_speed env w' point)"
proof -
  let ?gen = "filter (\<lambda>w. \<not> busy (workers st ! w)) [0..<length (workers st)]"
  have "w0 \<in> set ?gen" using assms(2,3) by simp
  then obtain w1 rest where gen: "?gen = w1 # rest" by (cases ?gen) auto
  obtain w s where sc: "scan_rest (\<lambda>w. travel_speed env w point) rest (w1, travel_speed env w1 point) = (w, s)"
    by (cases "scan_rest (\<lambda>w. travel_speed env w point) rest (w1, travel_speed env w1 point)")
  note m = scan_rest_min [OF refl sc]
  have s: "s = travel_speed env w point" using m by simp
  have win: "w \<in> set ?gen" using m unfolding gen by simp
  have least: "\<forall>x \<in> set ?gen. s \<le> travel_speed env x point" using m unfolding gen by blast
  have wl: "w < length (workers st)" and wi: "\<not> busy (workers st ! w)" using win by simp_all
  have "\<forall>w' < length (workers st). \<not> busy (workers st ! w') \<longrightarrow>
               travel_speed env w point \<le> travel_speed env w' point"
    using least s by simp
  moreover have "\<exists>time_diff speed_limit. best_worker env point gym updated_at skip_time st
           = (Inr (Some w),
              (emit (LogSpeedLimit time_diff speed_limit (Some (travel_speed env w point))) st)
                \<lparr>workers := (workers st)[w := (workers st ! w)\<lparr>speed := travel_speed env w point\<rparr>]\<rparr>)"
    using assms(1) gen sc s by (auto simp add: best_worker_def Let_def emit_def)
  ultimately show ?thesis using wl wi by blast
qed

subsection \<open>What the body of an attempt leaves alone\<close>

lemma job_queue_emit: "job_queue (emit ev st) = job_queue st"
  by (simp add: emit_def)

lemma job_queue_set_busy: "job_queue (set_busy w b st) = job_queue st"
  by (simp add: set_busy_def)

lemma best_worker_queue:
  "job_queue (snd (best_worker env point gym updated_at skip_time st)) = job_queue st"
  by (simp add: best_worker_def Let_def emit_def split: list.splits prod.splits)

lemma visit_retry_queue:
  "job_queue (snd (visit_retry env w point st)) = job_queue st"
  by (simp add: visit_retry_def Let_def emit_def split: sum.splits)

lemma record_visit_queue:
  "job_queue (snd (snd (record_visit env w u gym r st))) = job_queue st"
  by (simp add: record_visit_def Let_def)

lemma record_visit_job:
  "fst (snd (record_visit env w u gym r st)) = gym
   \<or> fst (snd (record_visit env w u gym r st)) = gym\<lparr>updated := Some (py_int (time_visited env))\<rparr>"
  by (simp add: record_visit_def Let_def)

lemma with_busy_queue:
  "job_queue (snd (snd (with_busy env w point u gym st))) = job_queue st"
proof -
  let ?st1 = "emit (Lock w) (set_busy w True st)"
  obtain r st2 where v: "visit_retry env w point ?st1 = (r, st2)"
    by (cases "visit_retry env w point ?st1")
  have "job_queue st2 = job_queue ?st1"
    using visit_retry_queue [of env w point ?st1] by (simp add: v)
  then have q2: "job_queue st2 = job_queue st"
    by (simp add: job_queue_emit job_queue_set_busy)
  show ?thesis
  proof (cases r)
    case (Inl e)
    then show ?thesis by (simp add: with_busy_def Let_def v q2 job_queue_emit job_queue_set_busy)
  next
    case (Inr val)
    obtain exc gym' st3 where rv: "record_visit env w u gym val st2 = (exc, gym', st3)"
      by (cases "record_visit env w u gym val st2") auto
    have "job_queue st3 = job_queue st"
      using record_visit_queue [of env w u gym val st2] by (simp add: rv q2)
    then show ?thesis by (simp add: with_busy_def Let_def v Inr rv job_queue_emit job_queue_set_busy)
  qed
qed

lemma with_busy_job:
  "fst (snd (with_busy env w point u gym st)) = gym
   \<or> fst (snd (with_busy env w point u gym st)) = gym\<lparr>updated := Some (py_int (time_visited env))\<rparr>"
proof -
  let ?st1 = "emit (Lock w) (set_busy w True st)"
  obtain r st2 where v: "visit_retry env w point ?st1 = (r, st2)"
    by (cases "visit_retry env w point ?st1")
  show ?thesis
  proof (cases r)
    case (Inl e)
    then show ?thesis by (simp add: with_busy_def Let_def v)
  next
    case (Inr val)
    obtain exc gym' st3 where rv: "record_visit env w u gym val st2 = (exc, gym', st3)"
      by (cases "record_visit env w u gym val st2") auto
    have "gym' = gym \<or> gym' = gym\<lparr>updated := Some (py_int (time_visited env))\<rparr>"
      using record_visit_job [of env w u gym val st2] by (simp add: rv)
    then show ?thesis by (simp add: with_busy_def Let_def v Inr rv)
  qed
qed

lemma try_body_queue:
  "job_queue (snd (snd (try_body env gym st))) = job_queue st"
proof -
  let ?st1 = "emit (Randomize (lat gym, lon gym) (3 / 100000)) st"
  let ?p1 = "randomize_point env (lat gym, lon gym) (3 / 100000)"
  obtain r st2 where bw: "best_worker env ?p1 gym (get_updated gym)
      (monotonic_start env + SEARCH_SLEEP env * 2) ?st1 = (r, st2)"
    by (cases "best_worker env ?p1 gym (get_updated gym) (monotonic_start env + SEARCH_SLEEP env * 2) ?st1")
  have "job_queue st2 = job_queue ?st1"
    using best_worker_queue [of env ?p1 gym "get_updated gym" "monotonic_start env + SEARCH_SLEEP env * 2" ?st1]
    by (simp add: bw)
  then have q2: "job_queue st2 = job_queue st"
    by (simp add: job_queue_emit)
  show ?thesis
    by (simp add: try_body_def Let_def bw q2 with_busy_queue split: sum.splits option.splits)
qed

lemma try_body_job:
  "fst (snd (try_body env gym st)) = gym
   \<or> fst (snd (try_body env gym st)) = gym\<lparr>updated := Some (py_int (time_visited env))\<rparr>"
  using with_busy_job [of env _ "randomize_point env (lat gym, lon gym) (3 / 100000)" "get_updated gym" gym]
  by (simp add: try_body_def Let_def split: sum.splits option.splits prod.splits)

lemma handlers_queue: "job_queue (snd (handlers exc st)) = job_queue st"
  by (simp add: handlers_def emit_def split: option.splits)

subsection \<open>The body of an attempt once a worker is chosen\<close>

lemma calls_append: "calls (xs @ ys) = calls xs @ calls ys"
  by (simp add: calls_def)

lemma try_body_chosen:
  assumes "running env" and "w0 < length (workers st)" and "\<not> busy (workers st ! w0)"
  shows "\<exists>w ev. try_body env gym st
           = with_busy env w (randomize_point env (lat gym, lon gym) (3 / 100000)) (get_updated gym) gym
               (st\<lparr>trace := trace st @ [Randomize (lat gym, lon gym) (3 / 100000), ev],
                   workers := (workers st)[w := (workers st ! w)
                       \<lparr>speed := travel_speed env w (randomize_point env (lat gym, lon gym) (3 / 100000))\<rparr>]\<rparr>)
         \<and> w < length (workers st) \<and> \<not> busy (workers st ! w)
         \<and> \<not> is_call ev"
proof -
  let ?st1 = "emit (Randomize (lat gym, lon gym) (3 / 100000)) st"
  let ?p1 = "randomize_point env (lat gym, lon gym) (3 / 100000)"
  have a: "w0 < length (workers ?st1)" "\<not> busy (workers ?st1 ! w0)"
    using assms(2,3) by (simp_all add: emit_def)
  from best_worker_idle [OF assms(1) a, of ?p1 gym "get_updated gym" "monotonic_start env + SEARCH_SLEEP env * 2"]
  obtain w td sl where bw: "best_worker env ?p1 gym (get_updated gym) (monotonic_start env + SEARCH_SLEEP env * 2) ?st1
       = (Inr (Some w), (emit (LogSpeedLimit td sl (Some (travel_speed env w ?p1))) ?st1)
            \<lparr>workers := (workers ?st1)[w := (workers ?st1 ! w)\<lparr>speed := travel_speed env w ?p1\<rparr>]\<rparr>)"
    and w: "w < length (workers ?st1)" "\<not> busy (workers ?st1 ! w)"
    by blast
  have "try_body env gym st = with_busy env w ?p1 (get_updated gym) gym
          (st\<lparr>trace := trace st @ [Randomize (lat gym, lon gym) (3 / 100000), LogSpeedLimit td sl (Some (travel_speed env w ?p1))],
              workers := (workers st)[w := (workers st ! w)\<lparr>speed := travel_speed env w ?p1\<rparr>]\<rparr>)"
    by (simp add: try_body_def Let_def bw) (simp add: emit_def)
  moreover have "\<not> is_call (LogSpeedLimit td sl (Some (travel_speed env w ?p1)))" by simp
  moreover have "w < length (workers st)" "\<not> busy (workers st ! w)"
    using w by (simp_all add: emit_def)
  ultimately show ?thesis by blast
qed

lemma try_body_selected:
  assumes "running env" and "w0 < length (workers st)" and "\<not> busy (workers st ! w0)"
  shows "\<exists>w ev.
           fst (best_worker env (randomize_point env (lat gym, lon gym) (3 / 100000)) gym
                  (get_updated gym) (monotonic_start env + SEARCH_SLEEP env * 2)
                  (emit (Randomize (lat gym, lon gym) (3 / 100000)) st)) = Inr (Some w)
         \<and> try_body env gym st
           = with_busy env w (randomize_point env (lat gym, lon gym) (3 / 100000)) (get_updated gym) gym
               (st\<lparr>trace := trace st @ [Randomize (lat gym, lon gym) (3 / 100000), ev],
                   workers := (workers st)[w := (workers st ! w)
                       \<lparr>speed := travel_speed env w (randomize_point env (lat gym, lon gym) (3 / 100000))\<rparr>]\<rparr>)
         \<and> w < length (workers st) \<and> \<not> busy (workers st ! w)
         \<and> (\<forall>w' < length (workers st). \<not> busy (workers st ! w') \<longrightarrow>
               travel_speed env w (randomize_point env (lat gym, lon gym) (3 / 100000))
                 \<le> travel_speed env w' (randomize_point env (lat gym, lon gym) (3 / 100000)))
         \<and> (\<forall>w' p. ev \<noteq> Visit w' p)"
proof -
  let ?st1 = "emit (Randomize (lat gym, lon gym) (3 / 100000)) st"
  let ?p1 = "randomize_point env (lat gym, lon gym) (3 / 100000)"
  have a: "w0 < length (workers ?st1)" "\<not> busy (workers ?st1 ! w0)"
    using assms(2,3) by (simp_all add: emit_def)
  from best_worker_idle [OF assms(1) a, of ?p1 gym "get_updated gym" "monotonic_start env + SEARCH_SLEEP env * 2"]
  obtain w td sl where bw: "best_worker env ?p1 gym (get_updated gym) (monotonic_start env + SEARCH_SLEEP env * 2) ?st1
       = (Inr (Some w), (emit (LogSpeedLimit td sl (Some (travel_speed env w ?p1))) ?st1)
            \<lparr>workers := (workers ?st1)[w := (workers ?st1 ! w)\<lparr>speed := travel_speed env w ?p1\<rparr>]\<rparr>)"
    and w: "w < length (workers ?st1)" "\<not> busy (workers ?st1 ! w)"
    and least: "\<forall>w' < length (workers ?st1). \<not> busy (workers ?st1 ! w') \<longrightarrow>
               travel_speed env w ?p1 \<le> travel_speed env w' ?p1"
    by blast
  have one: "fst (best_worker env ?p1 gym (get_updated gym) (monotonic_start env + SEARCH_SLEEP env * 2) ?st1)
       = Inr (Some w)"
    by (simp add: bw)
  have two: "try_body env gym st = with_busy env w ?p1 (get_updated gym) gym
          (st\<lparr>trace := trace st @ [Randomize (lat gym, lon gym) (3 / 100000), LogSpeedLimit td sl (Some (travel_speed env w ?p1))],
              workers := (workers st)[w := (workers st ! w)\<lparr>speed := travel_speed env w ?p1\<rparr>]\<rparr>)"
    by (simp add: try_body_def Let_def bw) (simp add: emit_def)
  have three: "\<forall>w' p. LogSpeedLimit td sl (Some (travel_speed env w ?p1)) \<noteq> Visit w' p" by simp
  have four: "w < length (workers st)" "\<not> busy (workers st ! w)"
    using w by (simp_all add: emit_def)
  have five: "\<forall>w' < length (workers st). \<not> busy (workers st ! w') \<longrightarrow>
               travel_speed env w ?p1 \<le> travel_speed env w' ?p1"
    using least by (simp add: emit_def)
  from one two three four five show ?thesis by blast
qed

subsection \<open>Unfolding the model on sample data\<close>

lemmas attempt_defs =
  try_point_def try_body_def with_busy_def visit_retry_def record_visit_def handlers_def
  finally_block_def add_job_def heappush_def best_worker_def emit_def set_busy_def
  get_updated_def py_int_def Let_def

lemmas sample_defs =
  sample_env_def gym_a_def gym_b_def idle_worker_def busy_worker_def initial_state_def

lemmas launch_defs = launch_start_def drain_def caught_in_loop_def heappop_def siftup_def
  fort_job_def fort_a_def fort_b_def

subsection \<open>The priority of a job (C3)\<close>

text \<open>
  C3, as amended. \<^verbatim>\<open>add_job\<close> adds to the queue exactly one entry: the job, under the clock
  reading and under the priority \<^verbatim>\<open>gym.get('updated', gym.get('last_modified', 0))\<close>. That
  priority is the value of \<^verbatim>\<open>updated\<close> whenever the key is present, the value 0 included;
  it is the value of \<^verbatim>\<open>last_modified\<close> only when \<^verbatim>\<open>updated\<close> is absent, and 0 when both are
  absent. A job built by \<^verbatim>\<open>preload\<close> always has the key \<^verbatim>\<open>updated\<close>, so it is keyed by the
  \<^verbatim>\<open>updated\<close> of its first sighting, or by 0 when the fort has no sighting, whatever its
  \<^verbatim>\<open>last_modified\<close>.
\<close>

theorem add_job_priority:
  "mset (job_queue (snd (add_job now gym st)))
     = add_mset (get_updated gym, now, gym) (mset (job_queue st))
   \<and> get_updated (gym\<lparr>updated := Some u\<rparr>) = u
   \<and> get_updated (gym\<lparr>updated := None, last_modified := Some m\<rparr>) = m
   \<and> get_updated (gym\<lparr>updated := None, last_modified := None\<rparr>) = 0
   \<and> get_updated (fort_job f) = (case sightings f of [] \<Rightarrow> 0 | s # _ \<Rightarrow> sighting_updated s)"
  by (simp add: mset_add_job get_updated_def fort_job_def Let_def split: list.splits)

text \<open>
  C3 as stated fails: a job whose \<^verbatim>\<open>updated\<close> is 0 and whose \<^verbatim>\<open>last_modified\<close> is 5 is keyed
  by 0, not by 5.
\<close>

theorem add_job_zero_updated:
  "updated gym_a = Some 0 \<and> last_modified gym_a = Some 5
   \<and> job_queue (snd (add_job 100 gym_a (initial_state 1))) = [(0, 100, gym_a)]
   \<and> fst (hd (job_queue (snd (add_job 100 gym_a (initial_state 1))))) \<noteq> 5"
  by (simp add: add_job_def heappush_def siftdown.simps get_updated_def sample_defs)

subsection \<open>The selector when the system is stopped (C10)\<close>

text \<open>
  C10. When \<^verbatim>\<open>overseer.running\<close> is false, \<^verbatim>\<open>best_worker\<close> returns \<^verbatim>\<open>None\<close> and leaves the
  state as it was, whatever the deadline: no worker is scanned, nothing is logged. The
  attempt then changes no counter and no worker, and its cleanup puts the job back as it
  came.
\<close>

theorem stopped:
  assumes "\<not> running env"
  shows "best_worker env point gym updated_at skip_time st = (Inr None, st)
       \<and> skipped (snd (try_point env gym st)) = skipped st
       \<and> visits (snd (try_point env gym st)) = visits st
       \<and> hash_burn (snd (try_point env gym st)) = hash_burn st
       \<and> workers (snd (try_point env gym st)) = workers st
       \<and> mset (job_queue (snd (try_point env gym st)))
            = add_mset (get_updated gym, time_requeue env, gym) (mset (job_queue st))"
  using assms
  by (simp add: best_worker_stopped try_point_def try_body_stopped handlers_def
        finally_block_frame emit_def)

theorem stopped_witness:
  "\<not> running (sample_env False (Inr VNone) (Inr VNone))
   \<and> best_worker (sample_env False (Inr VNone) (Inr VNone)) (1, 2) gym_a 0 56
        ((initial_state 1)\<lparr>workers := [idle_worker]\<rparr>)
       = (Inr None, (initial_state 1)\<lparr>workers := [idle_worker]\<rparr>)
   \<and> skipped (snd (try_point (sample_env False (Inr VNone) (Inr VNone)) gym_a
        ((initial_state 1)\<lparr>workers := [idle_worker]\<rparr>))) = 0
   \<and> job_queue (snd (try_point (sample_env False (Inr VNone) (Inr VNone)) gym_a
        ((initial_state 1)\<lparr>workers := [idle_worker]\<rparr>))) = [(0, 1008, gym_a)]"
proof -
  have r: "\<not> running (sample_env False (Inr VNone) (Inr VNone))"
    by (simp add: sample_env_def)
  have q: "job_queue (snd (try_point (sample_env False (Inr VNone) (Inr VNone)) gym_a
        ((initial_state 1)\<lparr>workers := [idle_worker]\<rparr>))) = [(0, 1008, gym_a)]"
    by (simp add: attempt_defs sample_defs siftdown.simps)
  show ?thesis
    using r q stopped [OF r, of "(1, 2)" gym_a 0 56 "(initial_state 1)\<lparr>workers := [idle_worker]\<rparr>"]
    by (simp add: initial_state_def)
qed

subsection \<open>The selector when no worker is idle (C1)\<close>

text \<open>
  C1 says that \<^verbatim>\<open>best_worker\<close>, finding no idle worker, sleeps and scans again until the
  deadline, returns \<^verbatim>\<open>None\<close> after it, and that the attempt changes no counter. The code
  does otherwise:
  whenever the system runs and every worker is busy, \<^verbatim>\<open>best_worker\<close> raises
  \<^verbatim>\<open>UnboundLocalError\<close> on its first pass, whatever the deadline, and \<^verbatim>\<open>try_point\<close> counts
  the attempt as skipped. The job is put back as it came.
\<close>

theorem no_idle_worker_raises:
  assumes "running env" and "\<forall>w \<in> set (workers st). busy w"
  shows "fst (best_worker env point gym updated_at skip_time st) = Inl UnboundLocalError
       \<and> skipped (snd (try_point env gym st)) = skipped st + 1
       \<and> workers (snd (try_point env gym st)) = workers st
       \<and> mset (job_queue (snd (try_point env gym st)))
            = add_mset (get_updated gym, time_requeue env, gym) (mset (job_queue st))"
proof -
  let ?st1 = "emit (Randomize (lat gym, lon gym) (3 / 100000)) st"
  let ?p1 = "randomize_point env (lat gym, lon gym) (3 / 100000)"
  have b: "\<forall>w \<in> set (workers ?st1). busy w" using assms(2) by (simp add: emit_def)
  from best_worker_none_idle [OF assms(1) assms(2)]
  have one: "fst (best_worker env point gym updated_at skip_time st) = Inl UnboundLocalError"
    by (metis fst_conv)
  from best_worker_none_idle [OF assms(1) b]
  obtain ev where bw: "best_worker env ?p1 gym (get_updated gym)
       (monotonic_start env + SEARCH_SLEEP env * 2) ?st1 = (Inl UnboundLocalError, emit ev ?st1)"
    by blast
  have body: "try_body env gym st = (Some UnboundLocalError, gym, emit ev ?st1)"
    by (simp add: try_body_def Let_def bw)
  have h: "handlers (Some UnboundLocalError) (emit ev ?st1)
       = (None, emit (LogException UnboundLocalError) ((emit ev ?st1)\<lparr>skipped := skipped st + 1\<rparr>))"
    by (simp add: handlers_def emit_def)
  have tp: "try_point env gym st = finally_block env gym None
        (emit (LogException UnboundLocalError) ((emit ev ?st1)\<lparr>skipped := skipped st + 1\<rparr>))"
    by (simp add: try_point_def body h)
  from one show ?thesis
    unfolding tp by (simp add: finally_block_frame emit_def)
qed

theorem no_idle_worker_raises_witness:
  "running (sample_env True (Inr VNone) (Inr VNone))
   \<and> set (workers ((initial_state 1)\<lparr>workers := [busy_worker]\<rparr>)) = {busy_worker}
   \<and> busy busy_worker
   \<and> fst (best_worker (sample_env True (Inr VNone) (Inr VNone)) (1, 2) gym_a 0 56
        ((initial_state 1)\<lparr>workers := [busy_worker]\<rparr>)) = Inl UnboundLocalError
   \<and> skipped (snd (try_point (sample_env True (Inr VNone) (Inr VNone)) gym_a
        ((initial_state 1)\<lparr>workers := [busy_worker]\<rparr>))) = 1"
proof -
  have r: "running (sample_env True (Inr VNone) (Inr VNone))"
    by (simp add: sample_env_def)
  have b: "\<forall>w \<in> set (workers ((initial_state 1)\<lparr>workers := [busy_worker]\<rparr>)). busy w"
    by (simp add: busy_worker_def)
  show ?thesis
    using r no_idle_worker_raises [OF r b, of "(1, 2)" gym_a 0 56]
    by (simp add: initial_state_def busy_worker_def)
qed

subsection \<open>The selector when a worker is idle (C7)\<close>

text \<open>
  C7. When the system runs and some worker is idle, \<^verbatim>\<open>best_worker\<close> returns an idle worker
  whose travel speed to the point is the least among the idle workers, and stores that
  speed in the worker's \<^verbatim>\<open>speed\<close>. The configured speed limit is any value: the limit
  computed from it is logged and decides nothing. In the witness the two idle workers
  have speeds 5 and 2, the limit is 13/30, and the worker of speed 2 is returned.
\<close>

theorem fastest_idle_worker:
  assumes "running env" and "w0 < length (workers st)" and "\<not> busy (workers st ! w0)"
  shows "\<exists>w. fst (best_worker env point gym updated_at skip_time st) = Inr (Some w)
         \<and> w < length (workers st) \<and> \<not> busy (workers st ! w)
         \<and> (\<forall>w' < length (workers st). \<not> busy (workers st ! w') \<longrightarrow>
               travel_speed env w point \<le> travel_speed env w' point)
         \<and> speed (workers (snd (best_worker env point gym updated_at skip_time st)) ! w)
             = travel_speed env w point"
proof -
  from best_worker_idle [OF assms, of point gym updated_at skip_time]
  obtain w ev where
    bw: "best_worker env point gym updated_at skip_time st
           = (Inr (Some w),
              (emit ev st)\<lparr>workers := (workers st)[w := (workers st ! w)\<lparr>speed := travel_speed env w point\<rparr>]\<rparr>)"
    and w: "w < length (workers st)" "\<not> busy (workers st ! w)"
    and least: "\<forall>w' < length (workers st). \<not> busy (workers st ! w') \<longrightarrow>
               travel_speed env w point \<le> travel_speed env w' point"
    by blast
  have "speed (workers (snd (best_worker env point gym updated_at skip_time st)) ! w)
             = travel_speed env w point"
    using w(1) by (simp add: bw)
  with bw w least show ?thesis by auto
qed

theorem fastest_idle_worker_witness:
  "running (sample_env True (Inr VNone) (Inr VNone))
   \<and> travel_speed (sample_env True (Inr VNone) (Inr VNone)) 0 (1, 2) = 5
   \<and> travel_speed (sample_env True (Inr VNone) (Inr VNone)) 1 (1, 2) = 2
   \<and> fst (best_worker (sample_env True (Inr VNone) (Inr VNone)) (1, 2) gym_a 0 56
        ((initial_state 2)\<lparr>workers := [idle_worker, idle_worker]\<rparr>)) = Inr (Some 1)
   \<and> workers (snd (best_worker (sample_env True (Inr VNone) (Inr VNone)) (1, 2) gym_a 0 56
        ((initial_state 2)\<lparr>workers := [idle_worker, idle_worker]\<rparr>)))
       = [idle_worker, idle_worker\<lparr>speed := 2\<rparr>]
   \<and> trace (snd (best_worker (sample_env True (Inr VNone) (Inr VNone)) (1, 2) gym_a 0 56
        ((initial_state 2)\<lparr>workers := [idle_worker, idle_worker]\<rparr>)))
       = [LogSpeedLimit 1000 (13 / 30) (Some 2)]"
proof -
  have r: "running (sample_env True (Inr VNone) (Inr VNone))"
    by (simp add: sample_env_def)
  have l: "0 < length (workers ((initial_state 2)\<lparr>workers := [idle_worker, idle_worker]\<rparr>))"
    by simp
  have i: "\<not> busy (workers ((initial_state 2)\<lparr>workers := [idle_worker, idle_worker]\<rparr>) ! 0)"
    by (simp add: idle_worker_def)
  have up: "[0..<2] = [0, Suc 0]" by (simp add: upt_rec)
  show ?thesis
    using fastest_idle_worker [OF r l i, of "(1, 2)" gym_a 0 56]
    by (simp add: best_worker_def emit_def py_int_def Let_def sample_defs up)
qed

subsection \<open>Every attempt puts its job back once (C4)\<close>

text \<open>
  C4. Whatever the environment does (no worker, success, either gym error, an exception
  of a collaborator, a cancellation during a visit), the queue after \<^verbatim>\<open>try_point\<close> holds the
  entries it held when the attempt started and exactly one more: an entry of the job,
  which is as it came or, after a success, with \<^verbatim>\<open>updated\<close> set. So the queue is one longer
  than when \<^verbatim>\<open>try_point\<close> started, and as long as it was before \<^verbatim>\<open>launch\<close> popped the job.
  This holds also when the \<^verbatim>\<open>put_nowait\<close> of the cleanup raises: the entry is appended
  before the heap is reordered.
\<close>

theorem requeued_once:
  "(\<exists>gym'. (gym' = gym \<or> gym' = gym\<lparr>updated := Some (py_int (time_visited env))\<rparr>)
       \<and> mset (job_queue (snd (try_point env gym st)))
           = add_mset (get_updated gym', time_requeue env, gym') (mset (job_queue st)))
   \<and> length (job_queue (snd (try_point env gym st))) = length (job_queue st) + 1
   \<and> length (job_queue (snd (try_point env gym (st\<lparr>job_queue := snd (heappop (e # queue))\<rparr>))))
       = length (e # queue)"
proof -
  obtain exc gym' st1 where body: "try_body env gym st = (exc, gym', st1)"
    by (cases "try_body env gym st") auto
  obtain pending st2 where h: "handlers exc st1 = (pending, st2)"
    by (cases "handlers exc st1")
  have g: "gym' = gym \<or> gym' = gym\<lparr>updated := Some (py_int (time_visited env))\<rparr>"
    using try_body_job [of env gym st] by (simp add: body)
  have q: "job_queue st2 = job_queue st"
    using try_body_queue [of env gym st] handlers_queue [of exc st1] by (simp add: body h)
  have m: "mset (job_queue (snd (try_point env gym st)))
           = add_mset (get_updated gym', time_requeue env, gym') (mset (job_queue st))"
    by (simp add: try_point_def body h finally_block_frame q)
  have len: "\<And>s. length (job_queue (snd (try_point env gym s))) = length (job_queue s) + 1"
  proof -
    fix s
    obtain exc gym' st1 where body: "try_body env gym s = (exc, gym', st1)"
      by (cases "try_body env gym s") auto
    obtain pending st2 where h: "handlers exc st1 = (pending, st2)"
      by (cases "handlers exc st1")
    have q: "job_queue st2 = job_queue s"
      using try_body_queue [of env gym s] handlers_queue [of exc st1] by (simp add: body h)
    have "mset (job_queue (snd (try_point env gym s)))
           = add_mset (get_updated gym', time_requeue env, gym') (mset (job_queue s))"
      by (simp add: try_point_def body h finally_block_frame q)
    then have "size (mset (job_queue (snd (try_point env gym s)))) = size (mset (job_queue s)) + 1"
      by simp
    then show "length (job_queue (snd (try_point env gym s))) = length (job_queue s) + 1"
      by simp
  qed
  show ?thesis using g m len [of st] len [of "st\<lparr>job_queue := snd (heappop (e # queue))\<rparr>"]
    by (auto simp: length_heappop)
qed

subsection \<open>The retry after a transient block (C5)\<close>

text \<open>
  C5. When the system runs, a worker is idle and the first visit returns -1, the attempt
  adds one to \<^verbatim>\<open>hash_burn\<close> and makes exactly these calls, in this order: the first jitter
  by 0.00003, the first visit, a second jitter of the jittered point by 0.00001, and one
  more visit at the point so obtained, by the same worker. When that visit returns -1
  again, the attempt ends in \<^verbatim>\<open>GymNotFoundError\<close>: it is logged as a gym error, \<^verbatim>\<open>skipped\<close>
  grows by one, \<^verbatim>\<open>visits\<close> does not change and the job goes back as it came.
\<close>

theorem transient_block_retry:
  assumes "running env" and "w0 < length (workers st)" and "\<not> busy (workers st ! w0)"
    and "first_visit env = Inr (VInt (- 1))"
  shows "\<exists>w. w < length (workers st) \<and> \<not> busy (workers st ! w)
       \<and> hash_burn (snd (try_point env gym st)) = hash_burn st + 1
       \<and> calls (trace (snd (try_point env gym st)))
           = calls (trace st) @
             [Randomize (lat gym, lon gym) (3 / 100000),
              Visit w (randomize_point env (lat gym, lon gym) (3 / 100000)),
              Randomize (randomize_point env (lat gym, lon gym) (3 / 100000)) (1 / 100000),
              Visit w (randomize_point env (randomize_point env (lat gym, lon gym) (3 / 100000))
                         (1 / 100000))]
       \<and> (second_visit env = Inr (VInt (- 1)) \<longrightarrow>
             skipped (snd (try_point env gym st)) = skipped st + 1
           \<and> visits (snd (try_point env gym st)) = visits st
           \<and> last (trace (snd (try_point env gym st))) = LogGymError GymNotFoundError
           \<and> mset (job_queue (snd (try_point env gym st)))
               = add_mset (get_updated gym, time_requeue env, gym) (mset (job_queue st)))"
proof -
  from try_body_chosen [OF assms(1-3), of gym]
  obtain w ev where body: "try_body env gym st
           = with_busy env w (randomize_point env (lat gym, lon gym) (3 / 100000)) (get_updated gym) gym
               (st\<lparr>trace := trace st @ [Randomize (lat gym, lon gym) (3 / 100000), ev],
                   workers := (workers st)[w := (workers st ! w)
                       \<lparr>speed := travel_speed env w (randomize_point env (lat gym, lon gym) (3 / 100000))\<rparr>]\<rparr>)"
    and w: "w < length (workers st)" "\<not> busy (workers st ! w)" and ev: "\<not> is_call ev"
    by blast
  show ?thesis
    apply (rule exI [of _ w])
    using w ev assms(4)
    apply (simp add: try_point_def body with_busy_def visit_retry_def record_visit_def
        handlers_def emit_def set_busy_def Let_def finally_block_frame calls_def
        split: sum.splits prod.splits)
    done
qed

theorem transient_block_retry_witness:
  "running (sample_env True (Inr (VInt (- 1))) (Inr (VInt (- 1))))
   \<and> first_visit (sample_env True (Inr (VInt (- 1))) (Inr (VInt (- 1)))) = Inr (VInt (- 1))
   \<and> second_visit (sample_env True (Inr (VInt (- 1))) (Inr (VInt (- 1)))) = Inr (VInt (- 1))
   \<and> hash_burn (snd (try_point (sample_env True (Inr (VInt (- 1))) (Inr (VInt (- 1)))) gym_a
        ((initial_state 2)\<lparr>workers := [idle_worker, busy_worker]\<rparr>))) = 1
   \<and> calls (trace (snd (try_point (sample_env True (Inr (VInt (- 1))) (Inr (VInt (- 1)))) gym_a
        ((initial_state 2)\<lparr>workers := [idle_worker, busy_worker]\<rparr>))))
       = [Randomize (1, 2) (3 / 100000), Visit 0 (100003 / 100000, 2),
          Randomize (100003 / 100000, 2) (1 / 100000), Visit 0 (100004 / 100000, 2)]
   \<and> skipped (snd (try_point (sample_env True (Inr (VInt (- 1))) (Inr (VInt (- 1)))) gym_a
        ((initial_state 2)\<lparr>workers := [idle_worker, busy_worker]\<rparr>))) = 1
   \<and> visits (snd (try_point (sample_env True (Inr (VInt (- 1))) (Inr (VInt (- 1)))) gym_a
        ((initial_state 2)\<lparr>workers := [idle_worker, busy_worker]\<rparr>))) = 0"
proof -
  let ?env = "sample_env True (Inr (VInt (- 1))) (Inr (VInt (- 1)))"
  let ?st = "(initial_state 2)\<lparr>workers := [idle_worker, busy_worker]\<rparr>"
  have r: "running ?env" by (simp add: sample_env_def)
  have l: "0 < length (workers ?st)" by simp
  have i: "\<not> busy (workers ?st ! 0)" by (simp add: idle_worker_def)
  have f: "first_visit ?env = Inr (VInt (- 1))" by (simp add: sample_env_def)
  have up: "[0..<2] = [0, Suc 0]" by (simp add: upt_rec)
  have t: "trace (snd (try_point ?env gym_a ?st))
      = [Randomize (1, 2) (3 / 100000), LogSpeedLimit 1000 (13 / 30) (Some 5), Lock 0,
         Visit 0 (100003 / 100000, 2), Randomize (100003 / 100000, 2) (1 / 100000),
         Visit 0 (100004 / 100000, 2), Unlock 0, LogGymError GymNotFoundError]"
    by (simp add: attempt_defs sample_defs up siftdown.simps)
  show ?thesis
    using transient_block_retry [OF r l i f, of gym_a] r f
    by (simp add: t calls_def) (simp add: sample_defs)
qed

subsection \<open>A successful visit (C6)\<close>

text \<open>
  C6. When the system runs, a worker is idle and the visit that counts (the first one,
  or the second one after a first result of -1) returns a true value other than -1, then
  with \<open>now = int(time())\<close> read on line 147 and \<open>w\<close> the worker that \<^verbatim>\<open>best_worker\<close> returned to
  the attempt: the visits of the attempt are made by \<open>w\<close>; the workers afterwards are the
  workers before, except that \<open>w\<close> has its \<^verbatim>\<open>speed\<close> set and its \<^verbatim>\<open>scan_delayed\<close> set to \<open>now\<close>
  minus the value \<^verbatim>\<open>job.get('updated', job.get('last_modified', 0))\<close> read when the attempt
  started; \<^verbatim>\<open>visits\<close> grows by one, \<^verbatim>\<open>skipped\<close> does not change, and the job goes back to the
  queue with \<^verbatim>\<open>updated = now\<close>, under the priority \<open>now\<close>. In the witness two workers are
  idle, with speeds 5 and 2: the second is chosen, visits and gets the metric, and the
  first is left as it was.
\<close>

theorem successful_visit:
  assumes "running env" and "w0 < length (workers st)" and "\<not> busy (workers st ! w0)"
    and "first_visit env = Inr r \<or> first_visit env = Inr (VInt (- 1)) \<and> second_visit env = Inr r"
    and "truthy r" and "r \<noteq> VInt (- 1)"
  shows "\<exists>w. fst (best_worker env (randomize_point env (lat gym, lon gym) (3 / 100000)) gym
                  (get_updated gym) (monotonic_start env + SEARCH_SLEEP env * 2)
                  (emit (Randomize (lat gym, lon gym) (3 / 100000)) st)) = Inr (Some w)
       \<and> w < length (workers st) \<and> \<not> busy (workers st ! w)
       \<and> Visit w (randomize_point env (lat gym, lon gym) (3 / 100000))
            \<in> set (trace (snd (try_point env gym st)))
       \<and> (\<forall>w' p. Visit w' p \<in> set (trace (snd (try_point env gym st))) \<longrightarrow>
              Visit w' p \<in> set (trace st) \<or> w' = w)
       \<and> workers (snd (try_point env gym st))
           = (workers st)[w := (workers st ! w)
                \<lparr>speed := travel_speed env w (randomize_point env (lat gym, lon gym) (3 / 100000)),
                 scan_delayed := py_int (time_visited env) - get_updated gym\<rparr>]
       \<and> scan_delayed (workers (snd (try_point env gym st)) ! w)
           = py_int (time_visited env) - get_updated gym
       \<and> visits (snd (try_point env gym st)) = visits st + 1
       \<and> skipped (snd (try_point env gym st)) = skipped st
       \<and> mset (job_queue (snd (try_point env gym st)))
           = add_mset (py_int (time_visited env), time_requeue env,
                       gym\<lparr>updated := Some (py_int (time_visited env))\<rparr>)
               (mset (job_queue st))"
proof -
  let ?p1 = "randomize_point env (lat gym, lon gym) (3 / 100000)"
  from try_body_selected [OF assms(1-3), of gym]
  obtain w ev where sel: "fst (best_worker env ?p1 gym (get_updated gym)
        (monotonic_start env + SEARCH_SLEEP env * 2)
        (emit (Randomize (lat gym, lon gym) (3 / 100000)) st)) = Inr (Some w)"
    and body: "try_body env gym st
           = with_busy env w ?p1 (get_updated gym) gym
               (st\<lparr>trace := trace st @ [Randomize (lat gym, lon gym) (3 / 100000), ev],
                   workers := (workers st)[w := (workers st ! w)\<lparr>speed := travel_speed env w ?p1\<rparr>]\<rparr>)"
    and w: "w < length (workers st)" "\<not> busy (workers st ! w)"
    and ev: "\<forall>w' p. ev \<noteq> Visit w' p"
    by blast
  have u: "get_updated (gym\<lparr>updated := Some (py_int (time_visited env))\<rparr>) = py_int (time_visited env)"
    by (simp add: get_updated_def)
  have b: "\<And>s d. (workers st ! w)\<lparr>speed := s, scan_delayed := d, busy := False\<rparr>
                = (workers st ! w)\<lparr>speed := s, scan_delayed := d\<rparr>"
    using w(2) by (cases "workers st ! w") simp
  have rest: "Visit w ?p1 \<in> set (trace (snd (try_point env gym st)))
       \<and> (\<forall>w' p. Visit w' p \<in> set (trace (snd (try_point env gym st))) \<longrightarrow>
              Visit w' p \<in> set (trace st) \<or> w' = w)
       \<and> workers (snd (try_point env gym st))
           = (workers st)[w := (workers st ! w)
                \<lparr>speed := travel_speed env w ?p1,
                 scan_delayed := py_int (time_visited env) - get_updated gym\<rparr>]
       \<and> scan_delayed (workers (snd (try_point env gym st)) ! w)
           = py_int (time_visited env) - get_updated gym
       \<and> visits (snd (try_point env gym st)) = visits st + 1
       \<and> skipped (snd (try_point env gym st)) = skipped st
       \<and> mset (job_queue (snd (try_point env gym st)))
           = add_mset (py_int (time_visited env), time_requeue env,
                       gym\<lparr>updated := Some (py_int (time_visited env))\<rparr>)
               (mset (job_queue st))"
    using assms(4)
  proof
    assume "first_visit env = Inr r"
    then show ?thesis
      using w assms(5,6) u ev
      by (auto simp add: try_point_def body with_busy_def visit_retry_def record_visit_def
        handlers_def emit_def set_busy_def Let_def finally_block_frame b)
  next
    assume "first_visit env = Inr (VInt (- 1)) \<and> second_visit env = Inr r"
    then show ?thesis
      using w assms(5,6) u ev
      by (auto simp add: try_point_def body with_busy_def visit_retry_def record_visit_def
        handlers_def emit_def set_busy_def Let_def finally_block_frame b)
  qed
  from sel w rest show ?thesis by blast
qed

theorem successful_visit_witness:
  "running (sample_env True (Inr (VInt 3)) (Inr VNone))
   \<and> first_visit (sample_env True (Inr (VInt 3)) (Inr VNone)) = Inr (VInt 3)
   \<and> truthy (VInt 3)
   \<and> updated gym_b = Some 400
   \<and> travel_speed (sample_env True (Inr (VInt 3)) (Inr VNone)) 0 (300003 / 100000, 4) = 5
   \<and> travel_speed (sample_env True (Inr (VInt 3)) (Inr VNone)) 1 (300003 / 100000, 4) = 2
   \<and> fst (best_worker (sample_env True (Inr (VInt 3)) (Inr VNone)) (300003 / 100000, 4) gym_b 400 56
        (emit (Randomize (3, 4) (3 / 100000))
           ((initial_state 2)\<lparr>workers := [idle_worker, idle_worker]\<rparr>))) = Inr (Some 1)
   \<and> trace (snd (try_point (sample_env True (Inr (VInt 3)) (Inr VNone)) gym_b
        ((initial_state 2)\<lparr>workers := [idle_worker, idle_worker]\<rparr>)))
       = [Randomize (3, 4) (3 / 100000), LogSpeedLimit 600 (3 / 10) (Some 2), Lock 1,
          Visit 1 (300003 / 100000, 4), Unlock 1]
   \<and> workers (snd (try_point (sample_env True (Inr (VInt 3)) (Inr VNone)) gym_b
        ((initial_state 2)\<lparr>workers := [idle_worker, idle_worker]\<rparr>)))
       = [idle_worker, idle_worker\<lparr>speed := 2, scan_delayed := 607\<rparr>]
   \<and> visits (snd (try_point (sample_env True (Inr (VInt 3)) (Inr VNone)) gym_b
        ((initial_state 2)\<lparr>workers := [idle_worker, idle_worker]\<rparr>))) = 1
   \<and> job_queue (snd (try_point (sample_env True (Inr (VInt 3)) (Inr VNone)) gym_b
        ((initial_state 2)\<lparr>workers := [idle_worker, idle_worker]\<rparr>)))
       = [(1007, 1008, gym_b\<lparr>updated := Some 1007\<rparr>)]"
proof -
  let ?env = "sample_env True (Inr (VInt 3)) (Inr VNone)"
  let ?st = "(initial_state 2)\<lparr>workers := [idle_worker, idle_worker]\<rparr>"
  have r: "running ?env" by (simp add: sample_env_def)
  have l: "0 < length (workers ?st)" by simp
  have i: "\<not> busy (workers ?st ! 0)" by (simp add: idle_worker_def)
  have f: "first_visit ?env = Inr (VInt 3) \<or>
           first_visit ?env = Inr (VInt (- 1)) \<and> second_visit ?env = Inr (VInt 3)"
    by (simp add: sample_env_def)
  have t: "truthy (VInt 3)" and n: "VInt 3 \<noteq> VInt (- 1)" by simp_all
  have up: "[0..<2] = [0, Suc 0]" by (simp add: upt_rec)
  have s5: "travel_speed ?env 0 (300003 / 100000, 4) = 5"
    and s2: "travel_speed ?env 1 (300003 / 100000, 4) = 2"
    by (simp_all add: sample_env_def)
  have bw: "fst (best_worker ?env (300003 / 100000, 4) gym_b 400 56
        (emit (Randomize (3, 4) (3 / 100000)) ?st)) = Inr (Some 1)"
    by (simp add: best_worker_def emit_def py_int_def Let_def sample_defs up)
  have tr: "trace (snd (try_point ?env gym_b ?st))
       = [Randomize (3, 4) (3 / 100000), LogSpeedLimit 600 (3 / 10) (Some 2), Lock 1,
          Visit 1 (300003 / 100000, 4), Unlock 1]"
    by (simp add: attempt_defs sample_defs up siftdown.simps)
  have w: "workers (snd (try_point ?env gym_b ?st))
       = [idle_worker, idle_worker\<lparr>speed := 2, scan_delayed := 607\<rparr>]"
    by (simp add: attempt_defs sample_defs up siftdown.simps)
  have q: "job_queue (snd (try_point ?env gym_b ?st)) = [(1007, 1008, gym_b\<lparr>updated := Some 1007\<rparr>)]"
    by (simp add: attempt_defs sample_defs up siftdown.simps)
  have v: "visits (snd (try_point ?env gym_b ?st)) = 1"
    by (simp add: attempt_defs sample_defs up siftdown.simps)
  have g: "updated gym_b = Some 400" by (simp add: gym_b_def)
  have f1: "first_visit ?env = Inr (VInt 3)" by (simp add: sample_env_def)
  show ?thesis
    using successful_visit [OF r l i f t n, of gym_b] r s5 s2 bw tr w q v g f1
    by simp
qed

subsection \<open>The launcher ends only when cancelled (C9)\<close>

lemma launcher_drain: "launcher (drain s) \<noteq> Finished"
  by (simp add: drain_def caught_in_loop_def split: prod.splits sum.splits)

lemma step_keeps_running:
  assumes "step c a s = Some s'" and "a \<noteq> Interrupt CancelledError" and "launcher s \<noteq> Finished"
  shows "launcher s' \<noteq> Finished"
proof (cases a)
  case Drain
  with assms show ?thesis by (auto simp: launcher_drain split: launcher.splits)
next
  case Acquire
  with assms show ?thesis by (auto split: launcher.splits if_splits)
next
  case Wake
  with assms show ?thesis by (auto split: launcher.splits)
next
  case (Interrupt e)
  with assms show ?thesis by (auto simp: caught_in_loop_def split: launcher.splits if_splits)
next
  case (Finish i env)
  with assms show ?thesis by (auto split: if_splits)
qed

lemma run_keeps_running:
  "run c acts s = Some s' \<Longrightarrow> Interrupt CancelledError \<notin> set acts \<Longrightarrow>
   launcher s \<noteq> Finished \<Longrightarrow> launcher s' \<noteq> Finished"
proof (induction acts arbitrary: s)
  case Nil
  then show ?case by simp
next
  case (Cons a acts)
  from Cons.prems(1) obtain s1 where s1: "step c a s = Some s1" and r: "run c acts s1 = Some s'"
    by (auto split: option.splits)
  have "launcher s1 \<noteq> Finished"
    using step_keeps_running [OF s1] Cons.prems(2,3) by auto
  with Cons.IH [OF r] Cons.prems(2) show ?case by simp
qed

text \<open>
  C9. Along every run of the system in which no \<^verbatim>\<open>await\<close> of the launcher raises
  \<^verbatim>\<open>CancelledError\<close>, the launcher never leaves its loop. An exception other than
  \<^verbatim>\<open>CancelledError\<close> raised while the launcher waits in \<^verbatim>\<open>acquire\<close>, and an exception of the
  pop, are caught: the warning is logged, the launcher sleeps for 1 second and then tests
  the queue again. The end of an attempt, whatever \<^verbatim>\<open>try_point\<close> raises, leaves the launcher
  where it is.
\<close>

theorem launcher_ends_only_when_cancelled:
  assumes "run c acts s = Some s'" and "Interrupt CancelledError \<notin> set acts"
    and "launcher s \<noteq> Finished"
  shows "launcher s' \<noteq> Finished
    \<and> (\<forall>t e gym. launcher t = Acquiring gym \<and> e \<noteq> CancelledError \<longrightarrow>
          (\<exists>t'. step c (Interrupt e) t = Some t' \<and> launcher t' = Sleeping
             \<and> trace (shared t') = trace (shared t) @ [LogLauncherWarning e, Sleep 1]
             \<and> (\<exists>t''. step c Wake t' = Some t'' \<and> launcher t'' = Draining)))
    \<and> (\<forall>t e queue. launcher t = Draining \<and> job_queue (shared t) \<noteq> []
            \<and> heappop (job_queue (shared t)) = (Inl e, queue) \<longrightarrow>
          (\<exists>t'. step c Drain t = Some t' \<and> launcher t' = Sleeping
             \<and> trace (shared t') = trace (shared t) @ [LogLauncherWarning e, Sleep 1]))
    \<and> (\<forall>t i env t'. step c (Finish i env) t = Some t' \<longrightarrow> launcher t' = launcher t)"
proof -
  have one: "launcher s' \<noteq> Finished" using run_keeps_running [OF assms] .
  have two: "\<forall>t e gym. launcher t = Acquiring gym \<and> e \<noteq> CancelledError \<longrightarrow>
          (\<exists>t'. step c (Interrupt e) t = Some t' \<and> launcher t' = Sleeping
             \<and> trace (shared t') = trace (shared t) @ [LogLauncherWarning e, Sleep 1]
             \<and> (\<exists>t''. step c Wake t' = Some t'' \<and> launcher t'' = Draining))"
    by (simp add: caught_in_loop_def emit_def)
  have three: "\<forall>t e queue. launcher t = Draining \<and> job_queue (shared t) \<noteq> []
            \<and> heappop (job_queue (shared t)) = (Inl e, queue) \<longrightarrow>
          (\<exists>t'. step c Drain t = Some t' \<and> launcher t' = Sleeping
             \<and> trace (shared t') = trace (shared t) @ [LogLauncherWarning e, Sleep 1])"
    by (simp add: drain_def caught_in_loop_def emit_def)
  have four: "\<forall>t i env t'. step c (Finish i env) t = Some t' \<longrightarrow> launcher t' = launcher t"
    by (auto split: if_splits)
  from one two three four show ?thesis by blast
qed

theorem launcher_ends_only_when_cancelled_witness:
  "launcher (launch_start (\<lambda>p. True) [(fort_a, 1), (fort_b, 2)] [idle_worker] (initial_state 1))
     = Draining
   \<and> Interrupt CancelledError \<notin> set [Drain, Interrupt TypeError, Wake, Drain, Acquire,
         Finish 0 (sample_env True (Inl CancelledError) (Inr VNone)), Drain, Acquire, Drain, Wake]
   \<and> (\<exists>s'. run False [Drain, Interrupt TypeError, Wake, Drain, Acquire,
         Finish 0 (sample_env True (Inl CancelledError) (Inr VNone)), Drain, Acquire, Drain, Wake]
        (launch_start (\<lambda>p. True) [(fort_a, 1), (fort_b, 2)] [idle_worker] (initial_state 1))
        = Some s'
      \<and> launcher s' = Draining
      \<and> trace (shared s')
          = [LogLauncherWarning TypeError, Sleep 1, Randomize (3, 4) (3 / 100000),
             LogSpeedLimit 1000 (13 / 30) (Some 5), Lock 0, Visit 0 (300003 / 100000, 4),
             Unlock 0, Sleep 1])"
proof -
  let ?acts = "[Drain, Interrupt TypeError, Wake, Drain, Acquire,
         Finish 0 (sample_env True (Inl CancelledError) (Inr VNone)), Drain, Acquire, Drain, Wake]"
  let ?s = "launch_start (\<lambda>p. True) [(fort_a, 1), (fort_b, 2)] [idle_worker] (initial_state 1)"
  have up: "[0..<1] = [0]" by (simp add: upt_rec)
  have s0: "?s = \<lparr>shared = (initial_state 1)\<lparr>workers := [idle_worker],
        job_queue := [(0, 1, fort_job fort_a), (0, 2, fort_job fort_b)]\<rparr>, in_flight = [], launcher = Draining\<rparr>"
    by (simp add: launch_start_def add_job_def heappush_def siftdown.simps entry_lt_def
        get_updated_def fort_job_def fort_a_def fort_b_def initial_state_def)
  obtain s' where r: "run False ?acts ?s = Some s'" and l: "launcher s' = Draining"
    and t: "trace (shared s')
          = [LogLauncherWarning TypeError, Sleep 1, Randomize (3, 4) (3 / 100000),
             LogSpeedLimit 1000 (13 / 30) (Some 5), Lock 0, Visit 0 (300003 / 100000, 4),
             Unlock 0, Sleep 1]"
    unfolding s0
    by (simp add: launch_defs attempt_defs sample_defs siftup_loop.simps siftdown.simps entry_lt_def up)
  have n: "Interrupt CancelledError \<notin> set ?acts" by simp
  have d: "launcher ?s \<noteq> Finished" unfolding s0 by simp
  have d': "launcher ?s = Draining" unfolding s0 by simp
  from launcher_ends_only_when_cancelled [OF r n d] r l t d' show ?thesis
    by simp
qed

subsection \<open>The units held never exceed the worker count\<close>

lemma semaphore_emit: "coroutine_semaphore (emit ev st) = coroutine_semaphore st"
  by (simp add: emit_def)

lemma semaphore_set_busy: "coroutine_semaphore (set_busy w b st) = coroutine_semaphore st"
  by (simp add: set_busy_def)

lemma best_worker_semaphore:
  "coroutine_semaphore (snd (best_worker env point gym updated_at skip_time st)) = coroutine_semaphore st"
  by (simp add: best_worker_def Let_def emit_def split: list.splits prod.splits)

lemma visit_retry_semaphore:
  "coroutine_semaphore (snd (visit_retry env w point st)) = coroutine_semaphore st"
  by (simp add: visit_retry_def Let_def emit_def split: sum.splits)

lemma record_visit_semaphore:
  "coroutine_semaphore (snd (snd (record_visit env w u gym r st))) = coroutine_semaphore st"
  by (simp add: record_visit_def Let_def)

lemma with_busy_semaphore:
  "coroutine_semaphore (snd (snd (with_busy env w point u gym st))) = coroutine_semaphore st"
proof -
  let ?st1 = "emit (Lock w) (set_busy w True st)"
  obtain r st2 where v: "visit_retry env w point ?st1 = (r, st2)"
    by (cases "visit_retry env w point ?st1")
  have "coroutine_semaphore st2 = coroutine_semaphore ?st1"
    using visit_retry_semaphore [of env w point ?st1] by (simp add: v)
  then have q2: "coroutine_semaphore st2 = coroutine_semaphore st"
    by (simp add: semaphore_emit semaphore_set_busy)
  show ?thesis
  proof (cases r)
    case (Inl e)
    then show ?thesis by (simp add: with_busy_def Let_def v q2 semaphore_emit semaphore_set_busy)
  next
    case (Inr val)
    obtain exc gym' st3 where rv: "record_visit env w u gym val st2 = (exc, gym', st3)"
      by (cases "record_visit env w u gym val st2") auto
    have "coroutine_semaphore st3 = coroutine_semaphore st"
      using record_visit_semaphore [of env w u gym val st2] by (simp add: rv q2)
    then show ?thesis by (simp add: with_busy_def Let_def v Inr rv semaphore_emit semaphore_set_busy)
  qed
qed

lemma try_body_semaphore:
  "coroutine_semaphore (snd (snd (try_body env gym st))) = coroutine_semaphore st"
proof -
  let ?st1 = "emit (Randomize (lat gym, lon gym) (3 / 100000)) st"
  let ?p1 = "randomize_point env (lat gym, lon gym) (3 / 100000)"
  obtain r st2 where bw: "best_worker env ?p1 gym (get_updated gym)
      (monotonic_start env + SEARCH_SLEEP env * 2) ?st1 = (r, st2)"
    by (cases "best_worker env ?p1 gym (get_updated gym) (monotonic_start env + SEARCH_SLEEP env * 2) ?st1")
  have "coroutine_semaphore st2 = coroutine_semaphore ?st1"
    using best_worker_semaphore [of env ?p1 gym "get_updated gym" "monotonic_start env + SEARCH_SLEEP env * 2" ?st1]
    by (simp add: bw)
  then have q2: "coroutine_semaphore st2 = coroutine_semaphore st"
    by (simp add: semaphore_emit)
  show ?thesis
    by (simp add: try_body_def Let_def bw q2 with_busy_semaphore split: sum.splits option.splits)
qed

lemma handlers_semaphore: "coroutine_semaphore (snd (handlers exc st)) = coroutine_semaphore st"
  by (simp add: handlers_def emit_def split: option.splits)

lemma try_point_semaphore:
  "coroutine_semaphore (snd (try_point env gym st)) = coroutine_semaphore st
   \<or> coroutine_semaphore (snd (try_point env gym st)) = coroutine_semaphore st + 1"
proof -
  obtain exc gym' st1 where body: "try_body env gym st = (exc, gym', st1)"
    by (cases "try_body env gym st") auto
  obtain pending st2 where h: "handlers exc st1 = (pending, st2)"
    by (cases "handlers exc st1")
  have q: "coroutine_semaphore st2 = coroutine_semaphore st"
    using try_body_semaphore [of env gym st] handlers_semaphore [of exc st1] by (simp add: body h)
  obtain e st3 where a: "add_job (time_requeue env) gym' st2 = (e, st3)"
    by (cases "add_job (time_requeue env) gym' st2")
  have "coroutine_semaphore st3 = coroutine_semaphore st"
    using add_job_frame(5) [of "time_requeue env" gym' st2] by (simp add: a q)
  then show ?thesis
    by (cases e) (simp_all add: try_point_def body h finally_block_def a)
qed


lemma preload_semaphore:
  "coroutine_semaphore (preload in_bounds forts st) = coroutine_semaphore st"
proof (induction forts arbitrary: st)
  case Nil
  then show ?case by simp
next
  case (Cons a forts)
  obtain f now where a: "a = (f, now)" by (cases a)
  obtain e st1 where aj: "add_job now (fort_job f) st = (e, st1)" by (cases "add_job now (fort_job f) st")
  have s1: "coroutine_semaphore st1 = coroutine_semaphore st"
    using add_job_frame(5) [of now "fort_job f" st] by (simp add: aj)
  show ?case
    by (cases e) (simp_all add: a aj s1 Cons.IH)
qed

lemma semaphore_drain: "coroutine_semaphore (shared (drain s)) = coroutine_semaphore (shared s)"
  by (simp add: drain_def caught_in_loop_def emit_def split: prod.splits sum.splits)

lemma in_flight_drain: "in_flight (drain s) = in_flight s"
  by (simp add: drain_def caught_in_loop_def split: prod.splits sum.splits)

lemma step_units:
  assumes "step c a s = Some s'" and "units_ok n s"
  shows "units_ok n s'"
proof (cases a)
  case Drain
  with assms show ?thesis
    by (auto simp: units_ok_def semaphore_drain in_flight_drain split: launcher.splits)
next
  case Acquire
  with assms show ?thesis by (auto simp: units_ok_def split: launcher.splits if_splits)
next
  case Wake
  with assms show ?thesis by (auto simp: units_ok_def split: launcher.splits)
next
  case (Interrupt e)
  with assms show ?thesis
    by (auto simp: units_ok_def caught_in_loop_def emit_def split: launcher.splits if_splits)
next
  case (Finish i env)
  with assms have i: "i < length (in_flight s)"
    and s': "s' = s\<lparr>shared := snd (try_point env (in_flight s ! i) (shared s)),
                      in_flight := take i (in_flight s) @ drop (Suc i) (in_flight s)\<rparr>"
    by (auto split: if_splits)
  have len: "int (length (take i (in_flight s) @ drop (Suc i) (in_flight s))) = int (length (in_flight s)) - 1"
    using i by auto
  from try_point_semaphore [of env "in_flight s ! i" "shared s"] assms(2) len
  show ?thesis unfolding s' units_ok_def by auto
qed

text \<open>
  Along every run of the system that \<^verbatim>\<open>launch\<close> starts, the value of the semaphore stays
  between 0 and \<^verbatim>\<open>workers_needed\<close>, and the attempts in flight are at most the units taken:
  an attempt is created only after \<^verbatim>\<open>acquire\<close> took a unit, and its end gives back one unit
  or none.
\<close>

theorem held_units_bounded:
  assumes "run c acts (launch_start in_bounds forts created (initial_state workers_needed)) = Some s"
  shows "0 \<le> coroutine_semaphore (shared s)
       \<and> coroutine_semaphore (shared s) + int (length (in_flight s)) \<le> int workers_needed"
proof -
  have run_units: "\<And>s0. run c acts s0 = Some s \<Longrightarrow> units_ok workers_needed s0 \<Longrightarrow> units_ok workers_needed s"
  proof (induction acts)
    case Nil
    then show ?case by simp
  next
    case (Cons a acts)
    from Cons.prems(1) obtain s1 where s1: "step c a s0 = Some s1" and r: "run c acts s1 = Some s"
      by (auto split: option.splits)
    from Cons.IH [OF r step_units [OF s1 Cons.prems(2)]] show ?case .
  qed
  have "units_ok workers_needed (launch_start in_bounds forts created (initial_state workers_needed))"
    by (simp add: units_ok_def launch_start_def Let_def preload_semaphore) (simp add: initial_state_def)
  from run_units [OF assms this] show ?thesis by (simp add: units_ok_def)
qed


theorem held_units_bounded_witness:
  "\<exists>s. run False [Drain, Acquire]
          (launch_start (\<lambda>p. True) [(fort_a, 1), (fort_b, 2)] [idle_worker, idle_worker]
             (initial_state 2)) = Some s
      \<and> coroutine_semaphore (shared s) = 1
      \<and> in_flight s = [fort_job fort_a]
      \<and> coroutine_semaphore (shared s) + int (length (in_flight s)) \<le> int 2"
proof -
  let ?s = "launch_start (\<lambda>p. True) [(fort_a, 1), (fort_b, 2)] [idle_worker, idle_worker] (initial_state 2)"
  have s0: "?s = \<lparr>shared = (initial_state 2)\<lparr>workers := [idle_worker, idle_worker],
        job_queue := [(0, 1, fort_job fort_a), (0, 2, fort_job fort_b)]\<rparr>, in_flight = [], launcher = Draining\<rparr>"
    by (simp add: launch_start_def add_job_def heappush_def siftdown.simps entry_lt_def
        get_updated_def fort_job_def fort_a_def fort_b_def initial_state_def)
  obtain s where r: "run False [Drain, Acquire] ?s = Some s"
    and c: "coroutine_semaphore (shared s) = 1" and f: "in_flight s = [fort_job fort_a]"
    unfolding s0
    by (simp add: launch_defs siftup_loop.simps siftdown.simps entry_lt_def initial_state_def)
  from held_units_bounded [OF r] r c f show ?thesis by simp
qed

subsection \<open>The semaphore (C8)\<close>

text \<open>
  C8 says that every attempt releases the semaphore once in its cleanup, so that the
  semaphore is back at its initial value when no attempt is in flight. The \<^verbatim>\<open>finally\<close> block
  calls \<^verbatim>\<open>add_job\<close> before \<^verbatim>\<open>release\<close>, and \<^verbatim>\<open>add_job\<close> can raise. With two workers and two jobs
  of priority 0: both attempts are launched (the semaphore goes from 2 to 0), the first
  attempt puts its job back at clock reading 100 and releases; the second reaches its
  cleanup at the same reading, \<^verbatim>\<open>put_nowait\<close> compares \<open>(0, 100, B)\<close> with \<open>(0, 100, A)\<close>, the
  two dicts differ and their comparison raises \<^verbatim>\<open>TypeError\<close>, and \<^verbatim>\<open>release\<close> is not reached.
  No attempt is in flight and the semaphore stands at 1, not 2.
\<close>

theorem semaphore_unit_lost:
  "coroutine_semaphore (initial_state 2) = 2
   \<and> (\<exists>s1 s2.
        run False [Drain, Acquire, Drain, Acquire,
                   Finish 0 ((sample_env False (Inr VNone) (Inr VNone))\<lparr>time_requeue := 100\<rparr>)]
          (launch_start (\<lambda>p. True) [(fort_a, 1), (fort_b, 2)] [idle_worker, idle_worker]
             (initial_state 2)) = Some s1
      \<and> in_flight s1 = [fort_job fort_b]
      \<and> job_queue (shared s1) = [(0, 100, fort_job fort_a)]
      \<and> coroutine_semaphore (shared s1) = 1
      \<and> fst (try_point ((sample_env False (Inr VNone) (Inr VNone))\<lparr>time_requeue := 100\<rparr>)
                (fort_job fort_b) (shared s1)) = Some TypeError
      \<and> step False (Finish 0 ((sample_env False (Inr VNone) (Inr VNone))\<lparr>time_requeue := 100\<rparr>)) s1
          = Some s2
      \<and> in_flight s2 = []
      \<and> coroutine_semaphore (shared s2) = 1)"
proof -
  let ?env = "(sample_env False (Inr VNone) (Inr VNone))\<lparr>time_requeue := 100\<rparr>"
  let ?s = "launch_start (\<lambda>p. True) [(fort_a, 1), (fort_b, 2)] [idle_worker, idle_worker] (initial_state 2)"
  have s0: "?s = \<lparr>shared = (initial_state 2)\<lparr>workers := [idle_worker, idle_worker],
        job_queue := [(0, 1, fort_job fort_a), (0, 2, fort_job fort_b)]\<rparr>, in_flight = [], launcher = Draining\<rparr>"
    by (simp add: launch_start_def add_job_def heappush_def siftdown.simps entry_lt_def
        get_updated_def fort_job_def fort_a_def fort_b_def initial_state_def)
  obtain s1 where r: "run False [Drain, Acquire, Drain, Acquire, Finish 0 ?env] ?s = Some s1"
    and f: "in_flight s1 = [fort_job fort_b]"
    and q: "job_queue (shared s1) = [(0, 100, fort_job fort_a)]"
    and c: "coroutine_semaphore (shared s1) = 1"
    and w: "workers (shared s1) = [idle_worker, idle_worker]"
    unfolding s0
    by (simp add: launch_defs attempt_defs sample_defs siftup_loop.simps siftdown.simps entry_lt_def)
  have t: "fst (try_point ?env (fort_job fort_b) (shared s1)) = Some TypeError"
    and t2: "coroutine_semaphore (snd (try_point ?env (fort_job fort_b) (shared s1))) = 1"
    by (simp_all add: attempt_defs sample_defs q c siftdown.simps entry_lt_def fort_job_def fort_a_def fort_b_def)
  have "step False (Finish 0 ?env) s1
       = Some (s1\<lparr>shared := snd (try_point ?env (fort_job fort_b) (shared s1)), in_flight := []\<rparr>)"
    by (simp add: f)
  with r f q c t t2 show ?thesis by (simp add: initial_state_def)
qed

subsection \<open>The heap order is kept when keys differ\<close>

lemma entry_lt_distinct:
  "entry_key a \<noteq> entry_key b \<Longrightarrow> entry_lt a b = Inr (entry_key a < entry_key b)"
  by (cases a; cases b) (auto simp: entry_lt_def entry_key_def)

lemma distinct_keys_swap:
  assumes "distinct (map entry_key h)" and "i < length h" and "j < length h"
  shows "distinct (map entry_key (swap h i j))"
proof -
  have "mset (map entry_key (swap h i j)) = mset (map entry_key h)"
    using mset_swap_entries [OF assms(2,3)] by (metis mset_map)
  then show ?thesis using assms(1) by (metis mset_eq_imp_distinct_iff)
qed

lemma distinct_keys_nth:
  "distinct (map entry_key h) \<Longrightarrow> i < length h \<Longrightarrow> j < length h \<Longrightarrow> i \<noteq> j \<Longrightarrow>
   entry_key (h ! i) \<noteq> entry_key (h ! j)"
  by (metis distinct_conv_nth length_map nth_map)

lemma heap_but_root: "heap_but h 0 \<Longrightarrow> heap_inv h"
  unfolding heap_but_def heap_inv_def by auto

lemma swap_nth:
  "i < length h \<Longrightarrow> j < length h \<Longrightarrow>
   swap h i j ! k = (if k = j then h ! i else if k = i then h ! j else h ! k)"
  by (auto simp: swap_def nth_list_update)

lemma heap_but_swap:
  assumes hb: "heap_but h pos" and pos: "pos < length h" "0 < pos"
    and par_def: "par = (pos - 1) div 2"
    and lt: "entry_key (h ! pos) < entry_key (h ! par)"
  shows "heap_but (swap h pos par) par"
proof -
  let ?h = "swap h pos par"
  have par: "par < pos" "par < length h" using pos par_def by auto
  have nth: "\<And>k. ?h ! k = (if k = par then h ! pos else if k = pos then h ! par else h ! k)"
    using swap_nth [OF pos(1) par(2)] by simp
  have A: "\<And>i. i < length h \<Longrightarrow> 0 < i \<Longrightarrow> i \<noteq> pos \<Longrightarrow>
             entry_key (h ! ((i - 1) div 2)) \<le> entry_key (h ! i)"
    using hb unfolding heap_but_def by blast
  have B: "\<And>i. i < length h \<Longrightarrow> 0 < i \<Longrightarrow> (i - 1) div 2 = pos \<Longrightarrow>
             entry_key (h ! par) \<le> entry_key (h ! i)"
    using hb pos(2) unfolding heap_but_def par_def by blast
  have one: "entry_key (?h ! ((i - 1) div 2)) \<le> entry_key (?h ! i)"
    if i: "i < length h" "0 < i" "i \<noteq> par" for i
  proof -
    define q where "q = (i - 1) div 2"
    have qi: "q < i" using i(2) q_def by auto
    show ?thesis unfolding q_def [symmetric]
    proof (cases "i = pos")
      case True
      then have "q = par" using q_def par_def by simp
      then show "entry_key (?h ! q) \<le> entry_key (?h ! i)" using True lt par by (simp add: nth)
    next
      case False
      show "entry_key (?h ! q) \<le> entry_key (?h ! i)"
      proof (cases "q = pos")
        case True
        have "entry_key (h ! par) \<le> entry_key (h ! i)" using B [OF i(1,2)] True q_def by simp
        then show ?thesis using True False i(3) par by (simp add: nth)
      next
        case np: False
        have Ai: "entry_key (h ! q) \<le> entry_key (h ! i)" using A [OF i(1,2) False] q_def by simp
        show ?thesis
        proof (cases "q = par")
          case True
          then show ?thesis using Ai False i(3) lt by (simp add: nth)
        next
          case False2: False
          then show ?thesis using False i(3) np Ai by (simp add: nth)
        qed
      qed
    qed
  qed
  have two: "entry_key (?h ! ((par - 1) div 2)) \<le> entry_key (?h ! i)"
    if i: "i < length h" "0 < i" "0 < par" "(i - 1) div 2 = par" for i
  proof -
    define g where "g = (par - 1) div 2"
    have gp: "g < par" using i(3) g_def by auto
    have gle: "entry_key (h ! g) \<le> entry_key (h ! par)"
      using A [OF par(2) i(3)] par(1) g_def by simp
    have inp: "i \<noteq> par" using i(2,4) by auto
    show ?thesis unfolding g_def [symmetric]
    proof (cases "i = pos")
      case True
      then show "entry_key (?h ! g) \<le> entry_key (?h ! i)" using gle gp par by (simp add: nth)
    next
      case False
      have "entry_key (h ! par) \<le> entry_key (h ! i)" using A [OF i(1,2) False] i(4) by simp
      with gle have "entry_key (h ! g) \<le> entry_key (h ! i)" by (rule order_trans)
      then show "entry_key (?h ! g) \<le> entry_key (?h ! i)" using False inp gp par by (simp add: nth)
    qed
  qed
  show ?thesis unfolding heap_but_def
  proof (intro conjI allI impI)
    fix i assume "i < length ?h" "0 < i" "i \<noteq> par"
    then show "entry_key (?h ! ((i - 1) div 2)) \<le> entry_key (?h ! i)"
      using one [of i] by (simp add: length_swap)
  next
    fix i assume "i < length ?h" "0 < i" "0 < par" "(i - 1) div 2 = par"
    then show "entry_key (?h ! ((par - 1) div 2)) \<le> entry_key (?h ! i)"
      using two [of i] by (simp add: length_swap)
  qed
qed

lemma siftdown_heap:
  "distinct (map entry_key h) \<Longrightarrow> pos < length h \<Longrightarrow> heap_but h pos \<Longrightarrow>
   fst (siftdown h 0 pos) = None \<and> heap_inv (snd (siftdown h 0 pos))"
proof (induction h "0::nat" pos rule: siftdown.induct)
  case (1 heap pos)
  show ?case
  proof (cases "0 < pos")
    case False
    then have p0: "pos = 0" by simp
    have "heap_inv heap" using "1.prems"(3) heap_but_root unfolding p0 by blast
    then show ?thesis unfolding p0 by (simp add: siftdown.simps [of heap 0 0])
  next
    case True
    define par where "par = (pos - 1) div 2"
    have par: "par < pos" "par < length heap" using True "1.prems"(2) par_def by auto
    have ne: "entry_key (heap ! pos) \<noteq> entry_key (heap ! par)"
      using distinct_keys_nth [OF "1.prems"(1,2) par(2)] par(1) by simp
    have cmp: "entry_lt (heap ! pos) (heap ! par) = Inr (entry_key (heap ! pos) < entry_key (heap ! par))"
      by (rule entry_lt_distinct [OF ne])
    have unf: "siftdown heap 0 pos =
        (if entry_key (heap ! pos) < entry_key (heap ! par)
         then siftdown (swap heap pos par) 0 par else (None, heap))"
      using True cmp unfolding par_def by (subst siftdown.simps) simp
    show ?thesis
    proof (cases "entry_key (heap ! pos) < entry_key (heap ! par)")
      case lt: True
      have d: "distinct (map entry_key (swap heap pos par))"
        by (rule distinct_keys_swap [OF "1.prems"(1,2) par(2)])
      have hb: "heap_but (swap heap pos par) par"
        by (rule heap_but_swap [OF "1.prems"(3,2) True par_def lt])
      have l: "par < length (swap heap pos par)" using par(2) by (simp add: length_swap)
      have "fst (siftdown (swap heap pos par) 0 par) = None
            \<and> heap_inv (snd (siftdown (swap heap pos par) 0 par))"
        using "1.hyps" [OF True cmp [unfolded par_def] lt [unfolded par_def]
                           d [unfolded par_def] l [unfolded par_def] hb [unfolded par_def]]
        unfolding par_def .
      then show ?thesis using lt by (simp add: unf)
    next
      case False
      then have le: "entry_key (heap ! par) \<le> entry_key (heap ! pos)" by simp
      have "heap_inv heap"
        unfolding heap_inv_def
      proof (intro allI impI)
        fix i assume i: "i < length heap" "0 < i"
        show "entry_key (heap ! ((i - 1) div 2)) \<le> entry_key (heap ! i)"
        proof (cases "i = pos")
          case True
          then show ?thesis using le unfolding par_def by simp
        next
          case False
          then show ?thesis using "1.prems"(3) i unfolding heap_but_def by blast
        qed
      qed
      then show ?thesis using False by (simp add: unf)
    qed
  qed
qed

lemma heappush_heap:
  assumes "heap_inv h" and "distinct (map entry_key (h @ [x]))"
  shows "fst (heappush h x) = None \<and> heap_inv (snd (heappush h x))"
proof -
  have hb: "heap_but (h @ [x]) (length h)"
    unfolding heap_but_def
  proof (intro conjI allI impI)
    fix i assume i: "i < length (h @ [x])" "0 < i" "i \<noteq> length h"
    then have il: "i < length h" by simp
    then have pl: "(i - 1) div 2 < length h" by auto
    show "entry_key ((h @ [x]) ! ((i - 1) div 2)) \<le> entry_key ((h @ [x]) ! i)"
      using assms(1) il i(2) pl unfolding heap_inv_def by (simp add: nth_append)
  next
    fix i assume i: "i < length (h @ [x])" "0 < i" "(i - 1) div 2 = length h"
    have "(i - 1) div 2 < i" using i(2) by auto
    with i show "entry_key ((h @ [x]) ! ((length h - 1) div 2)) \<le> entry_key ((h @ [x]) ! i)"
      by simp
  qed
  show ?thesis
    unfolding heappush_def
    by (rule siftdown_heap [OF assms(2) _ hb]) simp
qed

lemma heap_root_least:
  assumes "heap_inv h"
  shows "i < length h \<Longrightarrow> entry_key (h ! 0) \<le> entry_key (h ! i)"
proof (induction i rule: less_induct)
  case (less i)
  show ?case
  proof (cases "i = 0")
    case True
    then show ?thesis by simp
  next
    case False
    define q where "q = (i - 1) div 2"
    have qi: "q < i" using False q_def by auto
    have "entry_key (h ! q) \<le> entry_key (h ! i)"
      using assms less.prems False unfolding heap_inv_def q_def by simp
    moreover have "entry_key (h ! 0) \<le> entry_key (h ! q)"
      using less.IH [OF qi] qi less.prems by simp
    ultimately show ?thesis by (rule order_trans [rotated])
  qed
qed

lemma siftdown_no_error:
  "distinct (map entry_key h) \<Longrightarrow> pos < length h \<Longrightarrow> fst (siftdown h startpos pos) = None"
proof (induction h startpos pos rule: siftdown.induct)
  case (1 heap startpos pos)
  show ?case
  proof (cases "startpos < pos")
    case False
    then show ?thesis by (subst siftdown.simps) simp
  next
    case True
    define par where "par = (pos - 1) div 2"
    have par: "par < pos" "par < length heap" using True "1.prems"(2) par_def by auto
    have ne: "entry_key (heap ! pos) \<noteq> entry_key (heap ! par)"
      using distinct_keys_nth [OF "1.prems"(1,2) par(2)] par(1) by simp
    have cmp: "entry_lt (heap ! pos) (heap ! par) = Inr (entry_key (heap ! pos) < entry_key (heap ! par))"
      by (rule entry_lt_distinct [OF ne])
    have unf: "siftdown heap startpos pos =
        (if entry_key (heap ! pos) < entry_key (heap ! par)
         then siftdown (swap heap pos par) startpos par else (None, heap))"
      using True cmp unfolding par_def by (subst siftdown.simps) simp
    show ?thesis
    proof (cases "entry_key (heap ! pos) < entry_key (heap ! par)")
      case lt: True
      have d: "distinct (map entry_key (swap heap pos par))"
        by (rule distinct_keys_swap [OF "1.prems"(1,2) par(2)])
      have l: "par < length (swap heap pos par)" using par(2) by (simp add: length_swap)
      have "fst (siftdown (swap heap pos par) startpos par) = None"
        using "1.IH" [OF True cmp [unfolded par_def] lt [unfolded par_def]
                           d [unfolded par_def] l [unfolded par_def]]
        unfolding par_def .
      then show ?thesis using lt by (simp add: unf)
    next
      case False
      then show ?thesis by (simp add: unf)
    qed
  qed
qed

lemma heap_hole_leaf:
  assumes "heap_hole h pos" and "\<not> pos < length h div 2"
  shows "heap_but h pos"
  unfolding heap_but_def
proof (intro conjI allI impI)
  fix i assume i: "i < length h" "0 < i" "i \<noteq> pos"
  have "(i - 1) div 2 \<noteq> pos" using assms(2) i(1,2) by auto
  then show "entry_key (h ! ((i - 1) div 2)) \<le> entry_key (h ! i)"
    using assms(1) i unfolding heap_hole_def by blast
next
  fix i assume i: "i < length h" "0 < i" "0 < pos" "(i - 1) div 2 = pos"
  then show "entry_key (h ! ((pos - 1) div 2)) \<le> entry_key (h ! i)"
    using assms(1) unfolding heap_hole_def by blast
qed

lemma heap_hole_swap:
  assumes hh: "heap_hole h pos" and c: "c < length h" "0 < c" "(c - 1) div 2 = pos"
    and least: "\<And>i. i < length h \<Longrightarrow> 0 < i \<Longrightarrow> (i - 1) div 2 = pos \<Longrightarrow>
                  entry_key (h ! c) \<le> entry_key (h ! i)"
  shows "heap_hole (swap h c pos) c"
proof -
  let ?h = "swap h c pos"
  have pc: "pos < c" using c(2,3) by auto
  then have pl: "pos < length h" using c(1) by simp
  have nth: "\<And>k. ?h ! k = (if k = pos then h ! c else if k = c then h ! pos else h ! k)"
    using swap_nth [OF c(1) pl] by simp
  have A: "\<And>i. i < length h \<Longrightarrow> 0 < i \<Longrightarrow> i \<noteq> pos \<Longrightarrow> (i - 1) div 2 \<noteq> pos \<Longrightarrow>
             entry_key (h ! ((i - 1) div 2)) \<le> entry_key (h ! i)"
    using hh unfolding heap_hole_def by blast
  have B: "\<And>i. i < length h \<Longrightarrow> 0 < i \<Longrightarrow> 0 < pos \<Longrightarrow> (i - 1) div 2 = pos \<Longrightarrow>
             entry_key (h ! ((pos - 1) div 2)) \<le> entry_key (h ! i)"
    using hh unfolding heap_hole_def by blast
  have one: "entry_key (?h ! ((i - 1) div 2)) \<le> entry_key (?h ! i)"
    if i: "i < length h" "0 < i" "i \<noteq> c" "(i - 1) div 2 \<noteq> c" for i
  proof -
    define q where "q = (i - 1) div 2"
    have qi: "q < i" using i(2) q_def by auto
    have qc: "q \<noteq> c" using i(4) q_def by simp
    show ?thesis unfolding q_def [symmetric]
    proof (cases "i = pos")
      case True
      have "entry_key (h ! q) \<le> entry_key (h ! c)"
        using B [OF c(1,2) _ c(3)] True i(2) q_def by simp
      then show "entry_key (?h ! q) \<le> entry_key (?h ! i)"
        using True qi qc by (simp add: nth)
    next
      case False
      show "entry_key (?h ! q) \<le> entry_key (?h ! i)"
      proof (cases "q = pos")
        case True
        have "entry_key (h ! c) \<le> entry_key (h ! i)" using least [OF i(1,2)] True q_def by simp
        then show ?thesis using True False i(3) by (simp add: nth)
      next
        case np: False
        have "entry_key (h ! q) \<le> entry_key (h ! i)"
          using A [OF i(1,2) False] np q_def by simp
        then show ?thesis using False i(3) np qc by (simp add: nth)
      qed
    qed
  qed
  have two: "entry_key (?h ! ((c - 1) div 2)) \<le> entry_key (?h ! i)"
    if i: "i < length h" "0 < i" "(i - 1) div 2 = c" for i
  proof -
    have ci: "c < i" using i(2,3) by auto
    have "entry_key (h ! c) \<le> entry_key (h ! i)"
      using A [OF i(1,2)] ci pc i(3) by simp
    then show ?thesis using ci pc c(3) by (simp add: nth)
  qed
  show ?thesis unfolding heap_hole_def
  proof (intro conjI allI impI)
    fix i assume "i < length ?h" "0 < i" "i \<noteq> c" "(i - 1) div 2 \<noteq> c"
    then show "entry_key (?h ! ((i - 1) div 2)) \<le> entry_key (?h ! i)"
      using one [of i] by (simp add: length_swap)
  next
    fix i assume "i < length ?h" "0 < i" "0 < c" "(i - 1) div 2 = c"
    then show "entry_key (?h ! ((c - 1) div 2)) \<le> entry_key (?h ! i)"
      using two [of i] by (simp add: length_swap)
  qed
qed

lemma children:
  "0 < (i::nat) \<Longrightarrow> (i - 1) div 2 = pos \<Longrightarrow> i = 2 * pos + 1 \<or> i = 2 * pos + 2"
  by auto

lemma siftup_loop_heap:
  "distinct (map entry_key h) \<Longrightarrow> pos < length h \<Longrightarrow> heap_hole h pos \<Longrightarrow>
   fst (siftup_loop h pos) = None
   \<and> snd (snd (siftup_loop h pos)) < length h
   \<and> heap_but (fst (snd (siftup_loop h pos))) (snd (snd (siftup_loop h pos)))
   \<and> mset (fst (snd (siftup_loop h pos))) = mset h"
proof (induction h pos rule: siftup_loop.induct)
  case (1 heap pos)
  show ?case
  proof (cases "pos < length heap div 2")
    case False
    have "siftup_loop heap pos = (None, heap, pos)"
      using False by (subst siftup_loop.simps) simp
    then show ?thesis using heap_hole_leaf [OF "1.prems"(3) False] "1.prems"(2) by simp
  next
    case inner: True
    define l where "l = 2 * pos + 1"
    define r where "r = 2 * pos + 2"
    have l: "l < length heap" "0 < l" "(l - 1) div 2 = pos" using inner l_def by auto
    have step: "fst (siftup_loop (swap heap c pos) c) = None
        \<and> snd (snd (siftup_loop (swap heap c pos) c)) < length heap
        \<and> heap_but (fst (snd (siftup_loop (swap heap c pos) c))) (snd (snd (siftup_loop (swap heap c pos) c)))
        \<and> mset (fst (snd (siftup_loop (swap heap c pos) c))) = mset heap"
      if c: "c < length heap" "0 < c" "(c - 1) div 2 = pos"
        and least: "\<And>i. i < length heap \<Longrightarrow> 0 < i \<Longrightarrow> (i - 1) div 2 = pos \<Longrightarrow>
                  entry_key (heap ! c) \<le> entry_key (heap ! i)"
        and ih: "distinct (map entry_key (swap heap c pos)) \<Longrightarrow> c < length (swap heap c pos) \<Longrightarrow>
                 heap_hole (swap heap c pos) c \<Longrightarrow>
                 fst (siftup_loop (swap heap c pos) c) = None
                 \<and> snd (snd (siftup_loop (swap heap c pos) c)) < length (swap heap c pos)
                 \<and> heap_but (fst (snd (siftup_loop (swap heap c pos) c))) (snd (snd (siftup_loop (swap heap c pos) c)))
                 \<and> mset (fst (snd (siftup_loop (swap heap c pos) c))) = mset (swap heap c pos)"
      for c
    proof -
      have d: "distinct (map entry_key (swap heap c pos))"
        by (rule distinct_keys_swap [OF "1.prems"(1) c(1) "1.prems"(2)])
      have hh: "heap_hole (swap heap c pos) c"
        by (rule heap_hole_swap [OF "1.prems"(3) c least])
      have m: "mset (swap heap c pos) = mset heap"
        by (rule mset_swap_entries [OF c(1) "1.prems"(2)])
      from ih [OF d _ hh] c(1) show ?thesis by (simp add: length_swap m)
    qed
    show ?thesis
    proof (cases "r < length heap")
      case False
      have unf: "siftup_loop heap pos = siftup_loop (swap heap l pos) l"
        using inner False unfolding l_def r_def by (subst siftup_loop.simps) simp
      have least: "entry_key (heap ! l) \<le> entry_key (heap ! i)"
        if "i < length heap" "0 < i" "(i - 1) div 2 = pos" for i
      proof -
        from children [OF that(2,3)] that(1) False have "i = l" unfolding l_def r_def by auto
        then show ?thesis by simp
      qed
      have r': "\<not> 2 * pos + 2 < length heap" using False r_def by simp
      show ?thesis unfolding unf
        by (rule step [OF l least "1.IH"(3) [OF inner r', folded l_def]])
    next
      case two: True
      have r: "r < length heap" "0 < r" "(r - 1) div 2 = pos" using two r_def by auto
      have r': "2 * pos + 2 < length heap" using two r_def by simp
      have ne: "entry_key (heap ! l) \<noteq> entry_key (heap ! r)"
        using distinct_keys_nth [OF "1.prems"(1) l(1) r(1)] l_def r_def by simp
      have cmp: "entry_lt (heap ! l) (heap ! r) = Inr (entry_key (heap ! l) < entry_key (heap ! r))"
        by (rule entry_lt_distinct [OF ne])
      have unf: "siftup_loop heap pos =
          (if entry_key (heap ! l) < entry_key (heap ! r)
           then siftup_loop (swap heap l pos) l else siftup_loop (swap heap r pos) r)"
        using inner two cmp unfolding l_def r_def by (subst siftup_loop.simps) simp
      show ?thesis
      proof (cases "entry_key (heap ! l) < entry_key (heap ! r)")
        case lt: True
        have least: "entry_key (heap ! l) \<le> entry_key (heap ! i)"
          if "i < length heap" "0 < i" "(i - 1) div 2 = pos" for i
        proof -
          from children [OF that(2,3)] have "i = l \<or> i = r" unfolding l_def r_def .
          then show ?thesis using lt by auto
        qed
        have "siftup_loop heap pos = siftup_loop (swap heap l pos) l" using lt by (simp add: unf)
        then show ?thesis
          using step [OF l least "1.IH"(1) [OF inner r' cmp [unfolded l_def r_def] lt [unfolded l_def r_def], folded l_def]]
          by simp
      next
        case False
        have least: "entry_key (heap ! r) \<le> entry_key (heap ! i)"
          if "i < length heap" "0 < i" "(i - 1) div 2 = pos" for i
        proof -
          from children [OF that(2,3)] have "i = l \<or> i = r" unfolding l_def r_def .
          then show ?thesis using False by auto
        qed
        have "siftup_loop heap pos = siftup_loop (swap heap r pos) r" using False by (simp add: unf)
        then show ?thesis
          using step [OF r least "1.IH"(2) [OF inner r' cmp [unfolded l_def r_def] False [unfolded l_def r_def], folded r_def]]
          by simp
      qed
    qed
  qed
qed

lemma distinct_keys_mset:
  "mset h' = mset h \<Longrightarrow> distinct (map entry_key h) \<Longrightarrow> distinct (map entry_key h')"
proof -
  assume m: "mset h' = mset h" and d: "distinct (map entry_key h)"
  have "mset (map entry_key h') = mset (map entry_key h)" using m by (metis mset_map)
  then show ?thesis using d by (metis mset_eq_imp_distinct_iff)
qed

lemma siftup_heap:
  assumes "distinct (map entry_key h)" and "0 < length h" and "heap_hole h 0"
  shows "fst (siftup h 0) = None \<and> heap_inv (snd (siftup h 0)) \<and> mset (snd (siftup h 0)) = mset h"
proof -
  obtain exc h' p' where l: "siftup_loop h 0 = (exc, h', p')"
    by (cases "siftup_loop h 0") auto
  from siftup_loop_heap [OF assms] l
  have exc: "exc = None" and p': "p' < length h" and hb: "heap_but h' p'" and m: "mset h' = mset h"
    by simp_all
  have len: "length h' = length h" using m by (metis size_mset)
  have d: "distinct (map entry_key h')" by (rule distinct_keys_mset [OF m assms(1)])
  have p'': "p' < length h'" using p' len by simp
  have s: "siftup h 0 = siftdown h' 0 p'" by (simp add: siftup_def l exc)
  from siftdown_heap [OF d p'' hb] mset_siftdown [OF p'', of 0] m
  show ?thesis by (simp add: s)
qed

lemma heappop_heap:
  assumes inv: "heap_inv h" and d: "distinct (map entry_key h)" and ne: "h \<noteq> []"
  shows "fst (heappop h) = Inr (h ! 0)
       \<and> heap_inv (snd (heappop h))
       \<and> add_mset (h ! 0) (mset (snd (heappop h))) = mset h"
proof (cases "butlast h = []")
  case True
  then have h: "h = [h ! 0]" using ne by (cases h) (auto split: if_splits)
  have "heappop h = (Inr (last h), [])" using ne True by (simp add: heappop_def)
  moreover have "last h = h ! 0" by (subst h) simp
  moreover have "heap_inv []" by (simp add: heap_inv_def)
  moreover have "mset h = {#h ! 0#}" by (subst h) simp
  ultimately show ?thesis by simp
next
  case False
  define h1 where "h1 = butlast h"
  define h2 where "h2 = h1[0 := last h]"
  have h1: "h1 \<noteq> []" using False h1_def by simp
  have len1: "length h1 = length h - 1" by (simp add: h1_def)
  have len2: "length h2 = length h1" by (simp add: h2_def)
  have l2: "0 < length h2" using h1 len2 by simp
  have nth1: "\<And>i. i < length h1 \<Longrightarrow> h1 ! i = h ! i" by (simp add: h1_def nth_butlast)
  have nth2: "\<And>i. 0 < i \<Longrightarrow> i < length h1 \<Longrightarrow> h2 ! i = h ! i"
    using nth1 by (simp add: h2_def)
  have h1c: "h1 = h ! 0 # tl h1" using h1 nth1 [of 0] by (cases h1) auto
  have h2c: "h2 = last h # tl h1" using h1 by (cases h1) (auto simp: h2_def)
  have "h = h1 @ [last h]" using ne by (simp add: h1_def)
  then have hc: "h = (h ! 0 # tl h1) @ [last h]" using h1c by simp
  have m2: "add_mset (h ! 0) (mset h2) = mset h"
    by (subst (2) hc, subst h2c) simp
  have d2: "distinct (map entry_key h2)"
  proof -
    have "distinct (map entry_key ((h ! 0 # tl h1) @ [last h]))" using d hc by simp
    then show ?thesis by (subst h2c) auto
  qed
  have hole: "heap_hole h2 0"
    unfolding heap_hole_def
  proof (intro conjI allI impI)
    fix i assume i: "i < length h2" "0 < i" "i \<noteq> 0" "(i - 1) div 2 \<noteq> 0"
    define q where "q = (i - 1) div 2"
    have q: "0 < q" "q < length h1" "q < i" using i len2 q_def by auto
    have "entry_key (h ! q) \<le> entry_key (h ! i)"
      using inv i(1,2) len1 len2 unfolding heap_inv_def q_def by simp
    then show "entry_key (h2 ! ((i - 1) div 2)) \<le> entry_key (h2 ! i)"
      unfolding q_def [symmetric] using nth2 [OF q(1,2)] nth2 [OF i(2)] i(1) len2 by simp
  next
    fix i assume "(0::nat) < 0"
    then show "entry_key (h2 ! ((0 - 1) div 2)) \<le> entry_key (h2 ! i)" by simp
  qed
  from siftup_heap [OF d2 l2 hole]
  have s: "fst (siftup h2 0) = None" "heap_inv (snd (siftup h2 0))" "mset (snd (siftup h2 0)) = mset h2"
    by simp_all
  obtain q where sq: "siftup h2 0 = (None, q)" using s(1) by (cases "siftup h2 0") auto
  have pop: "heappop h = (Inr (h1 ! 0), q)"
    using ne h1 sq by (simp add: heappop_def Let_def h1_def [symmetric] h2_def [symmetric])
  have "h1 ! 0 = h ! 0" using nth1 [of 0] h1 by simp
  with pop s sq m2 show ?thesis by simp
qed

lemma distinct_keys_push:
  assumes "mset q' = add_mset x (mset q)" and "distinct (map entry_key (q @ x # rest))"
  shows "distinct (map entry_key (q' @ rest))"
proof -
  have "mset (q' @ rest) = mset (q @ x # rest)" using assms(1) by simp
  then show ?thesis using assms(2) by (rule distinct_keys_mset)
qed

lemma distinct_keys_pop:
  assumes "add_mset x (mset q') = mset q" and "distinct (map entry_key (q @ rest))"
  shows "distinct (map entry_key (q' @ rest))"
proof -
  have "mset (x # q' @ rest) = mset (q @ rest)" using assms(1) by simp
  then have "distinct (map entry_key (x # q' @ rest))" using assms(2) by (rule distinct_keys_mset)
  then show ?thesis by simp
qed

lemma run_queue_heap:
  "heap_inv (job_queue st) \<Longrightarrow> distinct (map entry_key (job_queue st @ put_entries ops)) \<Longrightarrow>
   run_queue ops st = (exc, got, st') \<Longrightarrow>
   exc \<noteq> Some TypeError
   \<and> (exc = None \<longrightarrow>
        heap_inv (job_queue st') \<and> distinct (map entry_key (job_queue st'))
        \<and> mset (job_queue st') + mset got = mset (job_queue st) + mset (put_entries ops))"
proof (induction ops arbitrary: st exc got st')
  case Nil
  then show ?case by simp
next
  case (Cons op ops)
  show ?case
  proof (cases op)
    case (Put now gym)
    let ?x = "(get_updated gym, now, gym)"
    obtain e q where hp: "heappush (job_queue st) ?x = (e, q)"
      by (cases "heappush (job_queue st) ?x")
    have d1: "distinct (map entry_key (job_queue st @ [?x]))"
      using Cons.prems(2) Put by auto
    from heappush_heap [OF Cons.prems(1) d1] hp
    have e: "e = None" and inv: "heap_inv q" by simp_all
    have m: "mset q = add_mset ?x (mset (job_queue st))"
      using mset_heappush [of "job_queue st" ?x] hp by simp
    have "distinct (map entry_key (job_queue st @ ?x # put_entries ops))"
      using Cons.prems(2) Put by simp
    then have d2: "distinct (map entry_key (q @ put_entries ops))"
      by (rule distinct_keys_push [OF m])
    have aj: "add_job now gym st = (None, st\<lparr>job_queue := q\<rparr>)"
      by (simp add: add_job_def hp e)
    have r: "run_queue ops (st\<lparr>job_queue := q\<rparr>) = (exc, got, st')"
      using Cons.prems(3) Put aj by simp
    from Cons.IH [OF _ _ r] inv d2 m Put show ?thesis by simp
  next
    case Get
    show ?thesis
    proof (cases "job_queue st = []")
      case True
      then have "run_queue (op # ops) st = (Some IndexError, [], st\<lparr>job_queue := []\<rparr>)"
        using Get by (simp add: heappop_def)
      with Cons.prems(3) show ?thesis by auto
    next
      case False
      have d0: "distinct (map entry_key (job_queue st))" using Cons.prems(2) by simp
      obtain r q where hp: "heappop (job_queue st) = (r, q)" by (cases "heappop (job_queue st)")
      from heappop_heap [OF Cons.prems(1) d0 False] hp
      have r: "r = Inr (job_queue st ! 0)" and inv: "heap_inv q"
        and m: "add_mset (job_queue st ! 0) (mset q) = mset (job_queue st)"
        by simp_all
      have "distinct (map entry_key (job_queue st @ put_entries ops))"
        using Cons.prems(2) Get by simp
      then have d2: "distinct (map entry_key (q @ put_entries ops))"
        by (rule distinct_keys_pop [OF m])
      obtain exc1 got1 st1 where r1: "run_queue ops (st\<lparr>job_queue := q\<rparr>) = (exc1, got1, st1)"
        by (cases "run_queue ops (st\<lparr>job_queue := q\<rparr>)") auto
      have res: "exc = exc1" "got = job_queue st ! 0 # got1" "st' = st1"
        using Cons.prems(3) Get hp r r1 by simp_all
      from Cons.IH [OF _ _ r1] inv d2
      have "exc1 \<noteq> Some TypeError
         \<and> (exc1 = None \<longrightarrow> heap_inv (job_queue st1) \<and> distinct (map entry_key (job_queue st1))
              \<and> mset (job_queue st1) + mset got1 = mset q + mset (put_entries ops))"
        by simp
      then show ?thesis using res m Get
        by (auto simp: add.assoc union_mset_add_mset_left [symmetric] simp del: union_mset_add_mset_left)
    qed
  qed
qed

lemmas queue_defs = add_job_def heappush_def heappop_def siftup_def siftdown.simps
  siftup_loop.simps entry_lt_def entry_key_def swap_def get_updated_def Let_def

subsection \<open>The order of the queue (C2)\<close>

text \<open>
  C2, as amended. The second component of a queue entry is the reading of \<^verbatim>\<open>time()\<close> at the
  push, not a counter. Take any history of pushes and pops from the empty queue in which
  no two pushes have the same pair (priority, reading). Then no comparison raises
  \<^verbatim>\<open>TypeError\<close>; the queue holds exactly the entries pushed and not yet popped; and the next
  pop returns an entry of the queue whose pair (priority, reading) is the least in the
  queue. When moreover the readings grow strictly from push to push, an entry of the same
  priority still in the queue was pushed after the one that is popped.
\<close>

theorem pop_least:
  assumes "distinct (map entry_key (put_entries ops))"
    and "run_queue ops (st\<lparr>job_queue := []\<rparr>) = (exc, got, st')"
  shows "exc \<noteq> Some TypeError
     \<and> (exc = None \<longrightarrow> mset (job_queue st') + mset got = mset (put_entries ops))
     \<and> (exc = None \<and> job_queue st' \<noteq> [] \<longrightarrow>
          (\<exists>item queue. heappop (job_queue st') = (Inr item, queue)
             \<and> item \<in> set (job_queue st')
             \<and> (\<forall>e \<in> set (job_queue st'). entry_key item \<le> entry_key e)
             \<and> (sorted_wrt (<) (map (\<lambda>e. fst (snd e)) (put_entries ops)) \<longrightarrow>
                  (\<forall>i j. i < length (put_entries ops) \<and> j < length (put_entries ops)
                      \<and> put_entries ops ! i = item
                      \<and> put_entries ops ! j \<in> set (job_queue st')
                      \<and> fst (put_entries ops ! j) = fst item \<longrightarrow> i \<le> j))))"
proof -
  let ?st = "st\<lparr>job_queue := []\<rparr>"
  have h0: "heap_inv (job_queue ?st)" by (simp add: heap_inv_def)
  have d0: "distinct (map entry_key (job_queue ?st @ put_entries ops))" using assms(1) by simp
  from run_queue_heap [OF h0 d0 assms(2)]
  have no: "exc \<noteq> Some TypeError"
    and ok: "exc = None \<Longrightarrow> heap_inv (job_queue st') \<and> distinct (map entry_key (job_queue st'))
              \<and> mset (job_queue st') + mset got = mset (put_entries ops)"
    by simp_all
  have least: "\<exists>item queue. heappop (job_queue st') = (Inr item, queue)
             \<and> item \<in> set (job_queue st')
             \<and> (\<forall>e \<in> set (job_queue st'). entry_key item \<le> entry_key e)
             \<and> (sorted_wrt (<) (map (\<lambda>e. fst (snd e)) (put_entries ops)) \<longrightarrow>
                  (\<forall>i j. i < length (put_entries ops) \<and> j < length (put_entries ops)
                      \<and> put_entries ops ! i = item
                      \<and> put_entries ops ! j \<in> set (job_queue st')
                      \<and> fst (put_entries ops ! j) = fst item \<longrightarrow> i \<le> j))"
    if e: "exc = None" and ne: "job_queue st' \<noteq> []"
  proof -
    let ?q = "job_queue st'"
    let ?P = "put_entries ops"
    from ok [OF e] have inv: "heap_inv ?q" and d: "distinct (map entry_key ?q)" by simp_all
    obtain r queue where hp: "heappop ?q = (r, queue)" by (cases "heappop ?q")
    from heappop_heap [OF inv d ne] hp have r: "r = Inr (?q ! 0)" by simp
    have mem: "?q ! 0 \<in> set ?q" using ne by simp
    have min: "\<forall>e \<in> set ?q. entry_key (?q ! 0) \<le> entry_key e"
    proof
      fix e assume "e \<in> set ?q"
      then obtain i where "i < length ?q" "?q ! i = e" by (auto simp: in_set_conv_nth)
      then show "entry_key (?q ! 0) \<le> entry_key e" using heap_root_least [OF inv, of i] by simp
    qed
    have fifo: "i \<le> j"
      if s: "sorted_wrt (<) (map (\<lambda>e. fst (snd e)) ?P)"
        and ij: "i < length ?P" "j < length ?P" "?P ! i = ?q ! 0" "?P ! j \<in> set ?q"
               "fst (?P ! j) = fst (?q ! 0)" for i j
    proof (rule ccontr)
      assume "\<not> i \<le> j"
      then have ji: "j < i" by simp
      have "map (\<lambda>e. fst (snd e)) ?P ! j < map (\<lambda>e. fst (snd e)) ?P ! i"
        using s ji ij(1) by (simp add: sorted_wrt_iff_nth_less)
      then have t: "fst (snd (?P ! j)) < fst (snd (?q ! 0))" using ij(1,2,3) by simp
      have "entry_key (?q ! 0) \<le> entry_key (?P ! j)" using min ij(4) by blast
      then have "fst (snd (?q ! 0)) \<le> fst (snd (?P ! j))"
        using ij(5) by (simp add: entry_key_def)
      with t show False by simp
    qed
    show ?thesis
      apply (rule exI [of _ "?q ! 0"])
      apply (rule exI [of _ queue])
      using hp r mem min fifo by blast
  qed
  show ?thesis using no ok least by blast
qed

theorem pop_least_witness:
  "distinct (map entry_key (put_entries
      [Put 10 gym_b, Put 20 gym_a, Put 30 (fort_job fort_a), Get, Put 40 (fort_job fort_b)]))
   \<and> run_queue [Put 10 gym_b, Put 20 gym_a, Put 30 (fort_job fort_a), Get, Put 40 (fort_job fort_b)]
        (initial_state 1)
       = (None, [(0, 20, gym_a)],
          (initial_state 1)\<lparr>job_queue :=
             [(0, 30, fort_job fort_a), (400, 10, gym_b), (0, 40, fort_job fort_b)]\<rparr>)
   \<and> fst (heappop [(0, 30, fort_job fort_a), (400, 10, gym_b), (0, 40, fort_job fort_b)])
       = Inr (0, 30, fort_job fort_a)"
proof -
  let ?ops = "[Put 10 gym_b, Put 20 gym_a, Put 30 (fort_job fort_a), Get, Put 40 (fort_job fort_b)]"
  let ?st' = "(initial_state 1)\<lparr>job_queue :=
             [(0, 30, fort_job fort_a), (400, 10, gym_b), (0, 40, fort_job fort_b)]\<rparr>"
  have d: "distinct (map entry_key (put_entries ?ops))"
    by (simp add: entry_key_def get_updated_def gym_a_def gym_b_def fort_job_def)
  have r: "run_queue ?ops ((initial_state 1)\<lparr>job_queue := []\<rparr>) = (None, [(0, 20, gym_a)], ?st')"
    by (simp add: queue_defs gym_a_def gym_b_def fort_job_def fort_a_def fort_b_def initial_state_def)
  have i: "(initial_state 1)\<lparr>job_queue := []\<rparr> = initial_state 1"
    by (simp add: initial_state_def)
  have p: "fst (heappop [(0, 30, fort_job fort_a), (400, 10, gym_b), (0, 40, fort_job fort_b)])
       = Inr (0, 30, fort_job fort_a)"
    by (simp add: queue_defs gym_a_def gym_b_def fort_job_def fort_a_def fort_b_def)
  from pop_least [OF d r] d r p show ?thesis
    unfolding i by simp
qed

text \<open>
  C2 as stated fails. The clock can be set back between two pushes: job A pushed at
  reading 10 and job B at reading 5, both of priority 0, and the pop returns B, pushed
  last. And in the history that pushes A and then B at the same reading 10, both of
  priority 0, the second push compares the two dicts and raises \<^verbatim>\<open>TypeError\<close>.
\<close>

theorem later_job_first:
  "(\<exists>st'. run_queue [Put 10 (fort_job fort_a), Put 5 (fort_job fort_b)] (initial_state 1)
             = (None, [], st')
         \<and> fst (heappop (job_queue st')) = Inr (0, 5, fort_job fort_b))
   \<and> fst (run_queue [Put 10 (fort_job fort_a), Put 10 (fort_job fort_b)] (initial_state 1))
       = Some TypeError"
  by (simp add: queue_defs fort_job_def fort_a_def fort_b_def initial_state_def)

end
